theory Spec2Isabelle
  imports Complex_Main "HOL-Library.AList" "HOL-Library.Multiset"
    "HOL-Library.Char_ord" "HOL-Library.List_Lexorder"
begin

section \<open>The asset reconciliation sensor\<close>

text \<open>
  A shallow embedding of \<^verbatim>\<open>asset_reconciliation_sensor.py\<close>: the per-parent decision
  \<^verbatim>\<open>_get_parent_updates\<close>, the tick \<^verbatim>\<open>sensor_fn\<close> and the graph builder
  \<^verbatim>\<open>_get_upstream_mapping\<close>.

  Conventions of the embedding.
  \<^item> A Python \<^verbatim>\<open>dict\<close> is an association list in insertion order; \<^verbatim>\<open>d[k] = v\<close> is
    \<open>AList.update k v d\<close> (overwrite in place, or append), \<^verbatim>\<open>d.values()\<close> is \<open>map snd d\<close>.
  \<^item> A Python \<^verbatim>\<open>set\<close> is a list without duplicates, in the order in which the host
    iterates over it.
  \<^item> Timestamps are the numbers the floats denote; the source only compares them and
    takes maxima, it does no arithmetic on them.
  \<^item> An exception is a value \<open>Inl e\<close> of the result type \<open>error + 'a\<close>.
\<close>

subsection \<open>Data model\<close>

text \<open>
  Modelled from the spec: the class \<^verbatim>\<open>AssetKey\<close> (module \<^verbatim>\<open>events\<close>) is not part of the
  sources at hand. The spec gives an asset key total equality and a canonical string form
  used as the cursor key; a key is represented here by that canonical string, so that
  \<^verbatim>\<open>str(a)\<close> is the identity.
\<close>

type_synonym asset_key = string
type_synonym run_id = string
type_synonym timestamp = real

definition str_of :: "asset_key \<Rightarrow> string" where
  "str_of a = a"

text \<open>
  Modelled from the spec: the event-log and run storage behind \<^verbatim>\<open>context.instance\<close> is not
  part of the sources at hand. The four queries that \<^verbatim>\<open>_get_parent_updates\<close> issues are the
  four operations of the spec's event-log adapter:
  \<^item> \<open>latest_planned p\<close>: the run of the most recent planned-materialization record of \<open>p\<close>
    (\<^verbatim>\<open>get_event_records\<close> on \<^verbatim>\<open>ASSET_MATERIALIZATION_PLANNED\<close>, descending, limit 1);
  \<^item> \<open>run_in_progress r\<close>: \<^verbatim>\<open>get_runs\<close> filtered by run id \<open>r\<close> and the in-progress statuses
    returns a non-empty list;
  \<^item> \<open>latest_completed p\<close>: timestamp and run of the most recent materialization record of \<open>p\<close>
    (\<^verbatim>\<open>get_event_records\<close> on \<^verbatim>\<open>ASSET_MATERIALIZATION\<close>, descending, limit 1);
  \<^item> \<open>planned_assets_in_run r\<close>: the asset keys of the planned-materialization records of
    run \<open>r\<close> (\<^verbatim>\<open>get_records_for_run\<close>).
\<close>

record event_log =
  latest_planned :: "asset_key \<Rightarrow> run_id option"
  run_in_progress :: "run_id \<Rightarrow> bool"
  latest_completed :: "asset_key \<Rightarrow> (timestamp \<times> run_id) option"
  planned_assets_in_run :: "run_id \<Rightarrow> asset_key list"

type_synonym status = "bool \<times> timestamp"
type_synonym parent_records = "(asset_key \<times> status) list"

subsection \<open>The per-parent decision: \<^verbatim>\<open>_get_parent_updates\<close>\<close>

text \<open>
  The test of lines 95 to 118: with the flag set, the most recent planned materialization
  of \<open>p\<close> exists and belongs to a run that is in progress.
\<close>

definition in_flight :: "event_log \<Rightarrow> bool \<Rightarrow> asset_key \<Rightarrow> bool" where
  "in_flight inst wait p =
     (wait \<and>
      (case latest_planned inst p of
         None \<Rightarrow> False
       | Some r \<Rightarrow> run_in_progress inst r))"

text \<open>
  Lines 126 to 161: the status of a parent that is neither about to be launched nor in flight.
\<close>

definition completed_status :: "event_log \<Rightarrow> asset_key \<Rightarrow> timestamp \<Rightarrow> asset_key \<Rightarrow> status" where
  "completed_status inst current_asset cursor_timestamp p =
     (case latest_completed inst p of
        None \<Rightarrow> (False, 0)
      | Some (ts, r) \<Rightarrow>
          if ts > cursor_timestamp then
            (if current_asset \<in> set (planned_assets_in_run inst r)
             then (False, ts)
             else (True, ts))
          else (False, 0))"

text \<open>
  The loop \<^verbatim>\<open>for p in parent_assets\<close> of lines 84 to 161. The fourth argument is the whole
  parent set (needed by the early return of line 122), the last two are the parents still
  to visit and the dictionary built so far.
\<close>

fun parent_updates_loop ::
  "event_log \<Rightarrow> asset_key \<Rightarrow> timestamp \<Rightarrow> asset_key list \<Rightarrow> asset_key list \<Rightarrow> bool \<Rightarrow>
     asset_key list \<Rightarrow> parent_records \<Rightarrow> parent_records" where
  "parent_updates_loop inst current_asset cursor_timestamp parent_assets
       will_materialize_list wait [] recs = recs"
| "parent_updates_loop inst current_asset cursor_timestamp parent_assets
       will_materialize_list wait (p # ps) recs =
     (if p \<in> set will_materialize_list then
        parent_updates_loop inst current_asset cursor_timestamp parent_assets
          will_materialize_list wait ps (AList.update p (True, 0) recs)
      else if in_flight inst wait p then
        map (\<lambda>pp. (pp, (False, 0))) parent_assets
      else
        parent_updates_loop inst current_asset cursor_timestamp parent_assets
          will_materialize_list wait ps
          (AList.update p (completed_status inst current_asset cursor_timestamp p) recs))"

definition get_parent_updates ::
  "event_log \<Rightarrow> asset_key \<Rightarrow> asset_key list \<Rightarrow> timestamp \<Rightarrow> asset_key list \<Rightarrow> bool \<Rightarrow>
     parent_records" where
  "get_parent_updates inst current_asset parent_assets cursor_timestamp
       will_materialize_list wait =
     parent_updates_loop inst current_asset cursor_timestamp parent_assets
       will_materialize_list wait parent_assets []"

subsection \<open>The graph builder: \<^verbatim>\<open>_get_upstream_mapping\<close>\<close>

type_synonym upstream_map = "(asset_key \<times> asset_key list) list"

text \<open>
  The asset selection machinery is not part of the sources at hand: the resolved selection
  (\<^verbatim>\<open>list(selection.resolve(...))\<close>) and the depth-1 upstream resolution of a key are
  parameters. The set comprehension of line 34 drops \<open>a\<close> itself and duplicates.
\<close>

definition get_upstream_mapping ::
  "asset_key list \<Rightarrow> (asset_key \<Rightarrow> asset_key list) \<Rightarrow> upstream_map" where
  "get_upstream_mapping selection_resolved upstream_depth1 =
     fold (\<lambda>a upstream.
             AList.update a (remdups (filter (\<lambda>p. p \<noteq> a) (upstream_depth1 a))) upstream)
          selection_resolved []"

text \<open>\<^verbatim>\<open>upstream[a]\<close> on the \<^verbatim>\<open>defaultdict(set)\<close>: a missing key reads as the empty set.\<close>

definition parents_of :: "upstream_map \<Rightarrow> asset_key \<Rightarrow> asset_key list" where
  "parents_of upstream a = (case map_of upstream a of None \<Rightarrow> [] | Some ps \<Rightarrow> ps)"

subsection \<open>Topological layering: \<^verbatim>\<open>toposort.toposort\<close>\<close>

datatype error = JSONDecodeError | CircularDependencyError

text \<open>
  Modelled from the spec: the function \<^verbatim>\<open>toposort.toposort\<close> called on line 200 belongs to a
  library that is not part of the sources at hand. The spec describes it as Kahn-style
  layering over the keys of the upstream map, failing when the graph has a cycle. The model
  follows the library's algorithm: self-dependencies are discarded, items that occur only
  as dependencies get an empty dependency set, and then, repeatedly, the items without
  dependencies form the next layer and are removed from the remaining items and from their
  dependency sets; items left over when no layer can be formed are a cycle.

  Each layer is a \<^verbatim>\<open>set\<close>. Line 203 iterates over it (\<^verbatim>\<open>for asset in layer\<close>) and the source
  sorts nothing, so the order inside a layer is the host's iteration order of that set. It
  is the parameter \<open>it\<close>: the elements of the set go in, and come out in iteration order.
\<close>

definition toposort_init :: "upstream_map \<Rightarrow> upstream_map" where
  "toposort_init data =
     (let data1 = map (\<lambda>(item, dep). (item, filter (\<lambda>e. e \<noteq> item) dep)) data;
          extra_items_in_deps =
            filter (\<lambda>e. e \<notin> set (map fst data1)) (remdups (concat (map snd data1)))
      in data1 @ map (\<lambda>item. (item, [])) extra_items_in_deps)"

definition no_deps :: "upstream_map \<Rightarrow> asset_key list" where
  "no_deps data = map fst (filter (\<lambda>(item, dep). dep = []) data)"

definition remove_ordered :: "asset_key list \<Rightarrow> upstream_map \<Rightarrow> upstream_map" where
  "remove_ordered ordered data =
     map (\<lambda>(item, dep). (item, filter (\<lambda>e. e \<notin> set ordered) dep))
         (filter (\<lambda>(item, dep). item \<notin> set ordered) data)"

function toposort_loop ::
  "(asset_key list \<Rightarrow> asset_key list) \<Rightarrow> upstream_map \<Rightarrow> error + asset_key list list" where
  "toposort_loop it data =
     (if no_deps data = [] then
        (if data = [] then Inr [] else Inl CircularDependencyError)
      else
        (case toposort_loop it (remove_ordered (no_deps data) data) of
           Inl e \<Rightarrow> Inl e
         | Inr layers \<Rightarrow> Inr (it (no_deps data) # layers)))"
  by pat_completeness auto
termination
proof (relation "measure (\<lambda>(it, data). length data)")
  show "wf (measure (\<lambda>(it, data). length data))"
    by simp
next
  fix it :: "asset_key list \<Rightarrow> asset_key list" and data :: upstream_map
  assume ne: "no_deps data \<noteq> []"
  then obtain k where k: "k \<in> set (no_deps data)"
    by (cases "no_deps data") auto
  then obtain x where x: "x \<in> set data" "fst x \<in> set (no_deps data)"
    by (auto simp: no_deps_def)
  have "length (filter (\<lambda>(item, dep). item \<notin> set (no_deps data)) data) < length data"
    using x by (intro length_filter_less[of x]) (auto simp: case_prod_beta)
  then show "((it, remove_ordered (no_deps data) data), (it, data))
               \<in> measure (\<lambda>(it, data). length data)"
    by (simp add: remove_ordered_def)
qed

declare toposort_loop.simps [simp del]

definition toposort ::
  "(asset_key list \<Rightarrow> asset_key list) \<Rightarrow> upstream_map \<Rightarrow> error + asset_key list list" where
  "toposort it data =
     (if data = [] then Inr [] else toposort_loop it (toposort_init data))"

subsection \<open>The tick: \<^verbatim>\<open>sensor_fn\<close>\<close>

type_synonym cursor_map = "(string \<times> timestamp) list"

text \<open>
  What the tick takes from its host: \<^verbatim>\<open>json.loads\<close> and \<^verbatim>\<open>json.dumps\<close> on the cursor (the
  result of \<^verbatim>\<open>loads\<close> is either a dictionary from strings to numbers or the exception it
  raises), and the iteration order of a set.
\<close>

record host =
  json_loads :: "string \<Rightarrow> error + cursor_map"
  json_dumps :: "cursor_map \<Rightarrow> string"
  set_iter :: "asset_key list \<Rightarrow> asset_key list"

record sensor_params =
  and_condition :: bool
  wait_for_in_progress_runs :: bool

record sensor_context =
  cursor :: "string option"
  cursor_has_been_updated :: bool

record run_request =
  run_key :: string
  asset_selection :: "asset_key list"

text \<open>Line 195: \<^verbatim>\<open>json.loads(context.cursor) if context.cursor else {}\<close>.\<close>

definition load_cursor :: "host \<Rightarrow> sensor_context \<Rightarrow> error + cursor_map" where
  "load_cursor h ctx =
     (case cursor ctx of
        None \<Rightarrow> Inr []
      | Some s \<Rightarrow> if s = [] then Inr [] else json_loads h s)"

text \<open>\<^verbatim>\<open>cursor_dict.get(k, 0.0)\<close>.\<close>

definition cursor_get :: "cursor_map \<Rightarrow> string \<Rightarrow> timestamp" where
  "cursor_get d k = (case map_of d k of None \<Rightarrow> 0 | Some t \<Rightarrow> t)"

text \<open>Lines 200 to 204: the layers, flattened, keeping the monitored keys.\<close>

definition toposort_assets ::
  "(asset_key list \<Rightarrow> asset_key list) \<Rightarrow> upstream_map \<Rightarrow> error + asset_key list" where
  "toposort_assets it upstream =
     (case toposort it upstream of
        Inl e \<Rightarrow> Inl e
      | Inr layers \<Rightarrow>
          Inr (filter (\<lambda>asset. asset \<in> set (map fst upstream)) (concat layers)))"

text \<open>Line 220: \<^verbatim>\<open>all if and_condition else any\<close>.\<close>

definition condition :: "bool \<Rightarrow> bool list \<Rightarrow> bool" where
  "condition and_cond bs = (if and_cond then list_all id bs else list_ex id bs)"

text \<open>
  Lines 209 to 218: the cursor of asset \<open>a\<close> is read and \<^verbatim>\<open>_get_parent_updates\<close> is called
  on its parents with the launch set built so far.
\<close>

definition asset_parent_updates ::
  "sensor_params \<Rightarrow> event_log \<Rightarrow> upstream_map \<Rightarrow> cursor_map \<Rightarrow> asset_key list \<Rightarrow>
     asset_key \<Rightarrow> parent_records" where
  "asset_parent_updates prm inst upstream cursor_dict should_materialize a =
     get_parent_updates inst a (parents_of upstream a) (cursor_get cursor_dict (str_of a))
       should_materialize (wait_for_in_progress_runs prm)"

text \<open>
  The body of the loop of lines 208 to 230, on the state
  \<open>(should_materialize, cursor_update_dict)\<close>. The list given to \<^verbatim>\<open>max\<close> on line 228 ends
  with \<open>a_cursor\<close> and is never empty.
\<close>

definition process_asset ::
  "sensor_params \<Rightarrow> event_log \<Rightarrow> upstream_map \<Rightarrow> cursor_map \<Rightarrow> asset_key \<Rightarrow>
     asset_key list \<times> cursor_map \<Rightarrow> asset_key list \<times> cursor_map" where
  "process_asset prm inst upstream cursor_dict a st =
     (case st of (should_materialize, cursor_update_dict) \<Rightarrow>
        let a_cursor = cursor_get cursor_dict (str_of a);
            cursor_update_dict1 = AList.update (str_of a) a_cursor cursor_update_dict;
            parent_update_records =
              asset_parent_updates prm inst upstream cursor_dict should_materialize a
        in if condition (and_condition prm)
                (map (\<lambda>(_, materialization_status, _). materialization_status)
                   parent_update_records)
           then (should_materialize @ [a],
                 AList.update (str_of a)
                   (Max (set (map (\<lambda>(_, _, cursor_val). cursor_val) parent_update_records
                              @ [a_cursor])))
                   cursor_update_dict1)
           else (should_materialize, cursor_update_dict1))"

text \<open>Lines 195 to 230: the launch set and the next cursor, or the exception raised.\<close>

definition sensor_decide ::
  "host \<Rightarrow> sensor_params \<Rightarrow> event_log \<Rightarrow> upstream_map \<Rightarrow> sensor_context \<Rightarrow>
     error + asset_key list \<times> cursor_map" where
  "sensor_decide h prm inst upstream ctx =
     (case load_cursor h ctx of
        Inl e \<Rightarrow> Inl e
      | Inr cursor_dict \<Rightarrow>
          (case toposort_assets (set_iter h) upstream of
             Inl e \<Rightarrow> Inl e
           | Inr order \<Rightarrow>
               Inr (fold (process_asset prm inst upstream cursor_dict) order ([], []))))"

text \<open>
  Lines 195 to 235: the tick on a given upstream map. It returns the context as the tick
  leaves it and the run request, if one is emitted.
\<close>

definition sensor_tick ::
  "host \<Rightarrow> sensor_params \<Rightarrow> event_log \<Rightarrow> upstream_map \<Rightarrow> sensor_context \<Rightarrow>
     error + sensor_context \<times> run_request option" where
  "sensor_tick h prm inst upstream ctx =
     (case sensor_decide h prm inst upstream ctx of
        Inl e \<Rightarrow> Inl e
      | Inr (should_materialize, cursor_update_dict) \<Rightarrow>
          if length should_materialize > 0 then
            (let ctx' = ctx\<lparr>cursor := Some (json_dumps h cursor_update_dict),
                            cursor_has_been_updated := True\<rparr>
             in Inr (ctx', Some \<lparr>run_key = the (cursor ctx'),
                                 asset_selection = should_materialize\<rparr>))
          else Inr (ctx, None))"

definition sensor_fn ::
  "host \<Rightarrow> sensor_params \<Rightarrow> asset_key list \<Rightarrow> (asset_key \<Rightarrow> asset_key list) \<Rightarrow>
     event_log \<Rightarrow> sensor_context \<Rightarrow> error + sensor_context \<times> run_request option" where
  "sensor_fn h prm selection_resolved upstream_depth1 inst ctx =
     sensor_tick h prm inst (get_upstream_mapping selection_resolved upstream_depth1) ctx"

subsection \<open>Concrete graphs, event logs and hosts\<close>

text \<open>
  The graph of the docstring of \<^verbatim>\<open>build_asset_reconciliation_sensor\<close>: \<open>a\<close> and \<open>b\<close> feed \<open>d\<close>,
  \<open>b\<close> and \<open>c\<close> feed \<open>e\<close>, \<open>d\<close> and \<open>e\<close> feed \<open>f\<close>; the sensor monitors \<open>d\<close>, \<open>e\<close> and \<open>f\<close>.
  In the log, \<open>a\<close>, \<open>b\<close> and \<open>c\<close> were materialized at times 1, 2 and 3, each in a run of its
  own, and no run is in progress.
\<close>

definition example_graph :: upstream_map where
  "example_graph = [(''d'', [''a'', ''b'']), (''e'', [''b'', ''c'']), (''f'', [''d'', ''e''])]"

definition log_abc :: event_log where
  "log_abc =
     \<lparr>latest_planned = Map.empty,
      run_in_progress = (\<lambda>r. False),
      latest_completed = [''a'' \<mapsto> (1, ''r1''), ''b'' \<mapsto> (2, ''r2''), ''c'' \<mapsto> (3, ''r3'')],
      planned_assets_in_run =
        (\<lambda>r. if r = ''r1'' then [''a''] else if r = ''r2'' then [''b'']
              else if r = ''r3'' then [''c''] else [])\<rparr>"

text \<open>
  Later, one more run \<open>r4\<close> planned and materialized both \<open>b\<close> and \<open>d\<close>, at time 6, and
  a run \<open>r5\<close> materialized \<open>a\<close> again, at time 7.
\<close>

definition log_bd :: event_log where
  "log_bd =
     \<lparr>latest_planned = [''a'' \<mapsto> ''r5'', ''b'' \<mapsto> ''r4'', ''d'' \<mapsto> ''r4''],
      run_in_progress = (\<lambda>r. False),
      latest_completed =
        [''a'' \<mapsto> (7, ''r5''), ''b'' \<mapsto> (6, ''r4''), ''c'' \<mapsto> (3, ''r3''),
         ''d'' \<mapsto> (6, ''r4'')],
      planned_assets_in_run =
        (\<lambda>r. if r = ''r1'' then [''a''] else if r = ''r2'' then [''b'']
              else if r = ''r3'' then [''c''] else if r = ''r4'' then [''b'', ''d'']
              else if r = ''r5'' then [''a''] else [])\<rparr>"

text \<open>
  The same history as it looks when run \<open>r4\<close> logged its two materializations without
  planned records (materializations logged from an op of a job that is not an asset job),
  and \<open>a\<close> was not materialized again.
\<close>

definition log_bd_unplanned :: event_log where
  "log_bd_unplanned =
     \<lparr>latest_planned = Map.empty,
      run_in_progress = (\<lambda>r. False),
      latest_completed =
        [''a'' \<mapsto> (1, ''r1''), ''b'' \<mapsto> (6, ''r4''), ''c'' \<mapsto> (3, ''r3''),
         ''d'' \<mapsto> (6, ''r4'')],
      planned_assets_in_run =
        (\<lambda>r. if r = ''r1'' then [''a''] else if r = ''r2'' then [''b'']
              else if r = ''r3'' then [''c''] else [])\<rparr>"

text \<open>
  A chain: \<open>a\<close> feeds \<open>p\<close>, \<open>p\<close> feeds \<open>c\<close>; the sensor monitors \<open>p\<close> and \<open>c\<close>. In the first log
  \<open>p\<close> was materialized at time 3 by a run of its own and \<open>a\<close> at time 5. In the second log
  \<open>a\<close> was materialized at time 5 and a run that planned \<open>p\<close> is in progress. In the third
  log \<open>a\<close> was materialized at time 5 and a later run that planned \<open>a\<close> is in progress.
\<close>

definition chain_graph :: upstream_map where
  "chain_graph = [(''p'', [''a'']), (''c'', [''p''])]"

definition log_chain :: event_log where
  "log_chain =
     \<lparr>latest_planned = [''a'' \<mapsto> ''r1'', ''p'' \<mapsto> ''r0''],
      run_in_progress = (\<lambda>r. False),
      latest_completed = [''a'' \<mapsto> (5, ''r1''), ''p'' \<mapsto> (3, ''r0'')],
      planned_assets_in_run =
        (\<lambda>r. if r = ''r1'' then [''a''] else if r = ''r0'' then [''p''] else [])\<rparr>"

definition log_chain_p_running :: event_log where
  "log_chain_p_running =
     \<lparr>latest_planned = [''a'' \<mapsto> ''r1'', ''p'' \<mapsto> ''r9''],
      run_in_progress = (\<lambda>r. r = ''r9''),
      latest_completed = [''a'' \<mapsto> (5, ''r1'')],
      planned_assets_in_run =
        (\<lambda>r. if r = ''r1'' then [''a''] else if r = ''r9'' then [''p''] else [])\<rparr>"

definition log_chain_a_running :: event_log where
  "log_chain_a_running =
     \<lparr>latest_planned = [''a'' \<mapsto> ''r2''],
      run_in_progress = (\<lambda>r. r = ''r2''),
      latest_completed = [''a'' \<mapsto> (5, ''r1'')],
      planned_assets_in_run =
        (\<lambda>r. if r = ''r1'' then [''a''] else if r = ''r2'' then [''a''] else [])\<rparr>"

text \<open>
  On the chain again: \<open>a\<close> was never materialized. A run \<open>r1\<close> that planned \<open>p\<close> is still in
  progress; a later run \<open>r2\<close> planned \<open>p\<close> too, materialized it at time 4 and has finished.
\<close>

definition log_chain_older_running :: event_log where
  "log_chain_older_running =
     \<lparr>latest_planned = [''p'' \<mapsto> ''r2''],
      run_in_progress = (\<lambda>r. r = ''r1''),
      latest_completed = [''p'' \<mapsto> (4, ''r2'')],
      planned_assets_in_run =
        (\<lambda>r. if r = ''r1'' then [''p''] else if r = ''r2'' then [''p''] else [])\<rparr>"

text \<open>
  A host for these examples. Its \<^verbatim>\<open>json.loads\<close> and \<^verbatim>\<open>json.dumps\<close> are those of Python
  restricted to the cursors that occur in the examples, listed with their JSON text; every
  other text is rejected by \<open>loads\<close>, as the real one rejects \<^verbatim>\<open>{\<close>. Sets are iterated in
  the order in which they were built.
\<close>

definition json_texts :: "(string \<times> cursor_map) list" where
  \<open>json_texts =
     [(''{}'', []),
      (''{"d": 2.0, "e": 3.0, "f": 0.0}'', [(''d'', 2), (''e'', 3), (''f'', 0)]),
      (''{"d": 7.0, "e": 6.0, "f": 0.0}'', [(''d'', 7), (''e'', 6), (''f'', 0)]),
      (''{"c": 0.0}'', [(''c'', 0)]),
      (''{"p": 5.0, "c": 0.0}'', [(''p'', 5), (''c'', 0)]),
      (''{"p": 5.0, "c": 3.0}'', [(''p'', 5), (''c'', 3)])]\<close>

definition loads_texts :: "string \<Rightarrow> error + cursor_map" where
  "loads_texts s =
     (case map_of json_texts s of None \<Rightarrow> Inl JSONDecodeError | Some d \<Rightarrow> Inr d)"

definition dumps_texts :: "cursor_map \<Rightarrow> string" where
  "dumps_texts d =
     (case filter (\<lambda>(s, d'). d' = d) json_texts of [] \<Rightarrow> ''null'' | (s, _) # _ \<Rightarrow> s)"

definition host_texts :: host where
  "host_texts = \<lparr>json_loads = loads_texts, json_dumps = dumps_texts, set_iter = id\<rparr>"

definition all_mode :: sensor_params where
  "all_mode = \<lparr>and_condition = True, wait_for_in_progress_runs = True\<rparr>"

definition any_mode :: sensor_params where
  "any_mode = \<lparr>and_condition = False, wait_for_in_progress_runs = True\<rparr>"

definition fresh_context :: sensor_context where
  "fresh_context = \<lparr>cursor = None, cursor_has_been_updated = False\<rparr>"

text \<open>The context after a tick that launched \<open>d\<close>, \<open>e\<close> and \<open>f\<close> on the first log.\<close>

definition example_context :: sensor_context where
  \<open>example_context =
     \<lparr>cursor = Some ''{"d": 2.0, "e": 3.0, "f": 0.0}'', cursor_has_been_updated = True\<rparr>\<close>

text \<open>The context after the any-mode tick on the second log, started from that context.\<close>

definition context_bd :: sensor_context where
  \<open>context_bd =
     \<lparr>cursor = Some ''{"d": 7.0, "e": 6.0, "f": 0.0}'', cursor_has_been_updated = True\<rparr>\<close>

text \<open>
  The contexts after the first and the second tick on the chain, the context after a tick
  that launched a single asset \<open>c\<close> without parents, and a context whose cursor is not JSON.
\<close>

definition context_chain :: sensor_context where
  \<open>context_chain =
     \<lparr>cursor = Some ''{"p": 5.0, "c": 0.0}'', cursor_has_been_updated = True\<rparr>\<close>

definition context_chain_again :: sensor_context where
  \<open>context_chain_again =
     \<lparr>cursor = Some ''{"p": 5.0, "c": 3.0}'', cursor_has_been_updated = True\<rparr>\<close>

definition context_childless :: sensor_context where
  \<open>context_childless = \<lparr>cursor = Some ''{"c": 0.0}'', cursor_has_been_updated = True\<rparr>\<close>

definition context_corrupt :: sensor_context where
  "context_corrupt = \<lparr>cursor = Some ''{'', cursor_has_been_updated = True\<rparr>"

text \<open>A numbering of the docstring graph in which every parent is below its child.\<close>

definition example_depth :: "asset_key \<Rightarrow> nat" where
  "example_depth k = (if k = ''f'' then 2 else if k = ''d'' \<or> k = ''e'' then 1 else 0)"

section \<open>Properties\<close>

subsection \<open>The loop of \<^verbatim>\<open>_get_parent_updates\<close>\<close>

lemma loop_abort:
  "\<exists>p\<in>set ps. p \<notin> set L \<and> in_flight inst w p \<Longrightarrow>
   parent_updates_loop inst c t P L w ps recs = map (\<lambda>pp. (pp, (False, 0))) P"
  by (induction ps arbitrary: recs) auto

lemma loop_no_abort:
  "\<not> (\<exists>p\<in>set ps. p \<notin> set L \<and> in_flight inst w p) \<Longrightarrow>
   parent_updates_loop inst c t P L w ps recs =
     fold (\<lambda>p. AList.update p (if p \<in> set L then (True, 0) else completed_status inst c t p))
       ps recs"
  by (induction ps arbitrary: recs) auto

lemma map_of_fold_update:
  "map_of (fold (\<lambda>p. AList.update p (f p)) ps recs) q =
     (if q \<in> set ps then Some (f q) else map_of recs q)"
  by (induction ps arbitrary: recs) (auto simp: update_conv')

lemma distinct_fold_update:
  "distinct (map fst recs) \<Longrightarrow> distinct (map fst (fold (\<lambda>p. AList.update p (f p)) ps recs))"
  by (induction ps arbitrary: recs) (auto simp: distinct_update)

lemma set_fold_update:
  "set (fold (\<lambda>p. AList.update p (f p)) ps []) = (\<lambda>p. (p, f p)) ` set ps"
proof -
  let ?r = "fold (\<lambda>p. AList.update p (f p)) ps []"
  have d: "distinct (map fst ?r)" by (rule distinct_fold_update) simp
  have "(k, v) \<in> set ?r \<longleftrightarrow> k \<in> set ps \<and> v = f k" for k v
  proof -
    have "(k, v) \<in> set ?r \<longleftrightarrow> map_of ?r k = Some v"
      using d by simp
    then show ?thesis
      by (auto simp: map_of_fold_update)
  qed
  then show ?thesis by auto
qed

lemma get_parent_updates_abort:
  "\<exists>p\<in>set P. p \<notin> set L \<and> in_flight inst w p \<Longrightarrow>
   get_parent_updates inst c P t L w = map (\<lambda>pp. (pp, (False, 0))) P"
  unfolding get_parent_updates_def by (rule loop_abort)

lemma get_parent_updates_no_abort:
  "\<not> (\<exists>p\<in>set P. p \<notin> set L \<and> in_flight inst w p) \<Longrightarrow>
   get_parent_updates inst c P t L w =
     fold (\<lambda>p. AList.update p (if p \<in> set L then (True, 0) else completed_status inst c t p))
       P []"
  unfolding get_parent_updates_def by (rule loop_no_abort)

subsection \<open>The upstream map of \<^verbatim>\<open>_get_upstream_mapping\<close>\<close>

text \<open>
  The graph builder returns a dictionary: its keys are the resolved selection, each once,
  and no key is among its own parents. The claims below are stated for any upstream map
  with distinct keys, so they hold for the map that \<^verbatim>\<open>sensor_fn\<close> builds.
\<close>

lemma get_upstream_mapping_fold:
  "distinct (map fst acc) \<Longrightarrow> (\<forall>(b, deps) \<in> set acc. b \<notin> set deps \<and> distinct deps) \<Longrightarrow>
   distinct (map fst (fold (\<lambda>a upstream.
       AList.update a (remdups (filter (\<lambda>p. p \<noteq> a) (par a))) upstream) sel acc)) \<and>
   (\<forall>(b, deps) \<in> set (fold (\<lambda>a upstream.
       AList.update a (remdups (filter (\<lambda>p. p \<noteq> a) (par a))) upstream) sel acc).
      b \<notin> set deps \<and> distinct deps)"
proof (induction sel arbitrary: acc)
  case Nil
  then show ?case by simp
next
  case (Cons a sel)
  let ?acc = "AList.update a (remdups (filter (\<lambda>p. p \<noteq> a) (par a))) acc"
  have 1: "distinct (map fst ?acc)"
    using Cons.prems(1) by (simp add: distinct_update)
  have 2: "\<forall>(b, deps) \<in> set ?acc. b \<notin> set deps \<and> distinct deps"
  proof (clarify)
    fix b deps assume m: "(b, deps) \<in> set ?acc"
    then have "map_of ?acc b = Some deps" using 1 by simp
    then have "(b = a \<and> deps = remdups (filter (\<lambda>p. p \<noteq> a) (par a))) \<or>
        (b \<noteq> a \<and> map_of acc b = Some deps)"
      by (auto simp: update_conv' split: if_splits)
    then show "b \<notin> set deps \<and> distinct deps"
    proof
      assume "b = a \<and> deps = remdups (filter (\<lambda>p. p \<noteq> a) (par a))"
      then show ?thesis by auto
    next
      assume "b \<noteq> a \<and> map_of acc b = Some deps"
      then have "(b, deps) \<in> set acc" by (auto dest: map_of_SomeD)
      with Cons.prems(2) show ?thesis by auto
    qed
  qed
  from Cons.IH[OF 1 2] show ?case by simp
qed

lemma get_upstream_mapping_wf:
  "distinct (map fst (get_upstream_mapping sel par)) \<and>
   (\<forall>(b, deps) \<in> set (get_upstream_mapping sel par). b \<notin> set deps \<and> distinct deps)"
  unfolding get_upstream_mapping_def by (rule get_upstream_mapping_fold) simp_all

lemma get_upstream_mapping_keys:
  "set (map fst (get_upstream_mapping sel par)) = set sel"
proof -
  have "fst ` set (fold (\<lambda>a upstream.
       AList.update a (remdups (filter (\<lambda>p. p \<noteq> a) (par a))) upstream) sel acc) =
     fst ` set acc \<union> set sel" for acc
    by (induction sel arbitrary: acc) (auto simp: dom_update)
  then show ?thesis by (simp add: get_upstream_mapping_def)
qed

subsection \<open>The layers of \<^verbatim>\<open>toposort\<close>\<close>

lemma keys_remove_ordered:
  "map fst (remove_ordered ordered data) = filter (\<lambda>k. k \<notin> set ordered) (map fst data)"
  by (induction data) (auto simp: remove_ordered_def)

lemma mem_remove_ordered:
  "(b, deps) \<in> set data \<Longrightarrow> b \<notin> set ordered \<Longrightarrow>
   (b, filter (\<lambda>e. e \<notin> set ordered) deps) \<in> set (remove_ordered ordered data)"
  by (force simp: remove_ordered_def)

lemma no_deps_subset: "set (no_deps data) \<subseteq> set (map fst data)"
  by (auto simp: no_deps_def)

lemma distinct_no_deps: "distinct (map fst data) \<Longrightarrow> distinct (no_deps data)"
  unfolding no_deps_def by (simp add: distinct_map_filter)

lemma mset_split_ordered:
  assumes "distinct ks" "distinct ordered" "set ordered \<subseteq> set ks"
  shows "mset ks = mset ordered + mset (filter (\<lambda>k. k \<notin> set ordered) ks)"
proof -
  have s: "set (filter (\<lambda>k. k \<in> set ordered) ks) = set ordered"
    using assms(3) by auto
  have d: "distinct (filter (\<lambda>k. k \<in> set ordered) ks)"
    using assms(1) by simp
  have "mset (filter (\<lambda>k. k \<in> set ordered) ks) = mset ordered"
    using set_eq_iff_mset_eq_distinct[OF d assms(2)] s by blast
  moreover have "mset ks = filter_mset (\<lambda>k. k \<in> set ordered) (mset ks)
      + filter_mset (\<lambda>k. k \<notin> set ordered) (mset ks)"
    by (rule multiset_partition)
  ultimately show ?thesis by (simp only: mset_filter)
qed

lemma toposort_loop_mset:
  "\<forall>xs. mset (it xs) = mset xs \<Longrightarrow>
   distinct (map fst data) \<Longrightarrow> toposort_loop it data = Inr layers \<Longrightarrow>
   mset (concat layers) = mset (map fst data)"
proof (induction it data arbitrary: layers rule: toposort_loop.induct)
  case (1 it data)
  show ?case
  proof (cases "no_deps data = []")
    case True
    with "1.prems"(3) show ?thesis
      by (simp add: toposort_loop.simps[of it data] split: if_splits)
  next
    case False
    let ?o = "no_deps data"
    let ?rest = "remove_ordered ?o data"
    from False "1.prems"(3) obtain ls where
      ls: "toposort_loop it ?rest = Inr ls" and layers: "layers = it ?o # ls"
      by (auto simp: toposort_loop.simps[of it data] split: sum.splits)
    have d: "distinct (map fst ?rest)"
      using "1.prems"(2) by (simp add: keys_remove_ordered)
    have "mset (concat ls) = mset (map fst ?rest)"
      using "1.IH"[OF False "1.prems"(1) d ls] .
    moreover have "mset (map fst data) = mset ?o + mset (filter (\<lambda>k. k \<notin> set ?o) (map fst data))"
      using "1.prems"(2) by (intro mset_split_ordered distinct_no_deps no_deps_subset)
    ultimately show ?thesis
      using "1.prems"(1) by (simp add: layers keys_remove_ordered)
  qed
qed

lemma toposort_loop_precedes:
  "\<forall>xs. mset (it xs) = mset xs \<Longrightarrow>
   distinct (map fst data) \<Longrightarrow> toposort_loop it data = Inr layers \<Longrightarrow>
   (b, deps) \<in> set data \<Longrightarrow> a \<in> set deps \<Longrightarrow>
   \<exists>xs ys. concat layers = xs @ b # ys \<and> a \<in> set xs"
proof (induction it data arbitrary: layers deps rule: toposort_loop.induct)
  case (1 it data)
  from "1.prems"(4,5) have ne: "data \<noteq> []" by auto
  show ?case
  proof (cases "no_deps data = []")
    case True
    with "1.prems"(3) ne show ?thesis
      by (simp add: toposort_loop.simps[of it data])
  next
    case False
    let ?o = "no_deps data"
    let ?rest = "remove_ordered ?o data"
    from False "1.prems"(3) obtain ls where
      ls: "toposort_loop it ?rest = Inr ls" and layers: "layers = it ?o # ls"
      by (auto simp: toposort_loop.simps[of it data] split: sum.splits)
    have d: "distinct (map fst ?rest)"
      using "1.prems"(2) by (simp add: keys_remove_ordered)
    have b_not: "b \<notin> set ?o"
    proof
      assume "b \<in> set ?o"
      then have "(b, []) \<in> set data" by (auto simp: no_deps_def)
      with "1.prems"(2,4) have "deps = []"
        using eq_key_imp_eq_value[of data b "[]" deps] by simp
      with "1.prems"(5) show False by simp
    qed
    have b_in: "(b, filter (\<lambda>e. e \<notin> set ?o) deps) \<in> set ?rest"
      using "1.prems"(4) b_not by (rule mem_remove_ordered)
    have it_set: "set (it ?o) = set ?o"
      using "1.prems"(1) by (auto dest: mset_eq_setD)
    show ?thesis
    proof (cases "a \<in> set ?o")
      case True
      have "mset (concat ls) = mset (map fst ?rest)"
        using toposort_loop_mset[OF "1.prems"(1) d ls] .
      then have "set (concat ls) = set (map fst ?rest)"
        by (rule mset_eq_setD)
      with b_in have "b \<in> set (concat ls)" by (metis fst_conv image_eqI set_map)
      then obtain us vs where "concat ls = us @ b # vs"
        by (blast dest: split_list)
      then have "concat layers = (it ?o @ us) @ b # vs" "a \<in> set (it ?o @ us)"
        using True it_set by (simp_all add: layers)
      then show ?thesis by blast
    next
      case a_not: False
      with "1.prems"(5) have "a \<in> set (filter (\<lambda>e. e \<notin> set ?o) deps)" by simp
      from "1.IH"[OF False "1.prems"(1) d ls b_in this]
      obtain xs ys where "concat ls = xs @ b # ys" "a \<in> set xs" by auto
      then have "concat layers = (it ?o @ xs) @ b # ys" "a \<in> set (it ?o @ xs)"
        by (simp_all add: layers)
      then show ?thesis by blast
    qed
  qed
qed

lemma keys_map_case:
  "map fst (map (\<lambda>(item, dep). (item, g item dep)) data) = map fst data"
  by (induction data) auto

lemma keys_toposort_init:
  "\<exists>extra. map fst (toposort_init data) = map fst data @ extra \<and> distinct extra \<and>
     set extra \<inter> set (map fst data) = {}"
proof -
  let ?d1 = "map (\<lambda>(item, dep). (item, filter (\<lambda>e. e \<noteq> item) dep)) data"
  let ?extra = "filter (\<lambda>e. e \<notin> set (map fst ?d1)) (remdups (concat (map snd ?d1)))"
  have k: "map fst ?d1 = map fst data" by (rule keys_map_case)
  have k2: "map fst (map (\<lambda>item. (item, [] :: asset_key list)) xs) = xs"
    for xs :: "asset_key list"
    by (induction xs) auto
  have "map fst (toposort_init data) =
        map fst ?d1 @ map fst (map (\<lambda>item. (item, [] :: asset_key list)) ?extra)"
    unfolding toposort_init_def Let_def map_append by (rule refl)
  then have "map fst (toposort_init data) = map fst data @ ?extra"
    by (simp only: k k2)
  moreover have "distinct ?extra" by simp
  moreover have "set ?extra \<inter> set (map fst data) = {}"
    unfolding k by auto
  ultimately show ?thesis by blast
qed

lemma mem_toposort_init:
  "(b, deps) \<in> set data \<Longrightarrow> (b, filter (\<lambda>e. e \<noteq> b) deps) \<in> set (toposort_init data)"
  unfolding toposort_init_def Let_def by force

lemma toposort_assets_cases:
  assumes "toposort_assets it up = Inr order"
  shows "(up = [] \<and> order = []) \<or>
         (\<exists>layers. toposort_loop it (toposort_init up) = Inr layers \<and>
            order = filter (\<lambda>a. a \<in> set (map fst up)) (concat layers))"
  using assms unfolding toposort_assets_def toposort_def
  by (cases "up = []") (auto split: sum.splits)

lemma toposort_assets_mset:
  assumes perm: "\<forall>xs. mset (it xs) = mset xs" and d: "distinct (map fst up)"
    and ok: "toposort_assets it up = Inr order"
  shows "mset order = mset (map fst up)"
proof -
  from toposort_assets_cases[OF ok] show ?thesis
  proof
    assume "up = [] \<and> order = []"
    then show ?thesis by simp
  next
    assume "\<exists>layers. toposort_loop it (toposort_init up) = Inr layers \<and>
            order = filter (\<lambda>a. a \<in> set (map fst up)) (concat layers)"
    then obtain layers where l: "toposort_loop it (toposort_init up) = Inr layers"
      and o: "order = filter (\<lambda>a. a \<in> set (map fst up)) (concat layers)" by blast
    obtain extra where e: "map fst (toposort_init up) = map fst up @ extra"
      "distinct extra" "set extra \<inter> set (map fst up) = {}"
      using keys_toposort_init[of up] by blast
    have di: "distinct (map fst (toposort_init up))"
      using d e by auto
    have m: "mset (concat layers) = mset (map fst (toposort_init up))"
      by (rule toposort_loop_mset[OF perm di l])
    have f1: "filter (\<lambda>a. a \<in> set (map fst up)) (map fst up) = map fst up"
      by (rule filter_True) simp
    have f2: "filter (\<lambda>a. a \<in> set (map fst up)) extra = []"
      using e(3) by (auto simp: filter_empty_conv)
    have "mset order = filter_mset (\<lambda>a. a \<in> set (map fst up)) (mset (concat layers))"
      by (simp only: o mset_filter)
    also have "\<dots> = mset (filter (\<lambda>a. a \<in> set (map fst up)) (map fst up @ extra))"
      by (simp only: m e(1) mset_filter)
    also have "\<dots> = mset (map fst up)"
      by (simp only: filter_append f1 f2 append_Nil2)
    finally show ?thesis .
  qed
qed

lemma toposort_assets_precedes:
  assumes perm: "\<forall>xs. mset (it xs) = mset xs" and d: "distinct (map fst up)"
    and ok: "toposort_assets it up = Inr order"
    and edge: "(b, deps) \<in> set up" "a \<in> set deps" "a \<noteq> b" and mon: "a \<in> set (map fst up)"
  shows "\<exists>xs ys. order = xs @ b # ys \<and> a \<in> set xs"
proof -
  from edge(1) have ne: "up \<noteq> []" by auto
  with toposort_assets_cases[OF ok]
  obtain layers where l: "toposort_loop it (toposort_init up) = Inr layers"
    and o: "order = filter (\<lambda>a. a \<in> set (map fst up)) (concat layers)" by blast
  obtain extra where e: "map fst (toposort_init up) = map fst up @ extra"
    "distinct extra" "set extra \<inter> set (map fst up) = {}"
    using keys_toposort_init[of up] by blast
  have di: "distinct (map fst (toposort_init up))"
    using d e by auto
  have bi: "(b, filter (\<lambda>e. e \<noteq> b) deps) \<in> set (toposort_init up)"
    using edge(1) by (rule mem_toposort_init)
  have ai: "a \<in> set (filter (\<lambda>e. e \<noteq> b) deps)"
    using edge(2,3) by simp
  from toposort_loop_precedes[OF perm di l bi ai]
  obtain xs ys where c: "concat layers = xs @ b # ys" and a: "a \<in> set xs" by blast
  have bk: "b \<in> set (map fst up)"
    using edge(1) by force
  have "order = filter (\<lambda>a. a \<in> set (map fst up)) xs @ b #
                filter (\<lambda>a. a \<in> set (map fst up)) ys"
    using bk by (simp add: o c)
  moreover have "a \<in> set (filter (\<lambda>a. a \<in> set (map fst up)) xs)"
    using a mon by simp
  ultimately show ?thesis by blast
qed

subsection \<open>The loop of \<^verbatim>\<open>sensor_fn\<close>\<close>

lemma condition_iff:
  "condition ac (map (\<lambda>(_, u, _). u) recs) =
     (if ac then (\<forall>(p, u, ts) \<in> set recs. u) else (\<exists>(p, u, ts) \<in> set recs. u))"
  by (auto simp: condition_def list_all_iff list_ex_iff)

lemma max_cursor_eq:
  "Max (set (map (\<lambda>(_, _, v). v) recs @ [t])) = Max (insert t ((\<lambda>(p, u, ts). ts) ` set recs))"
  by (simp add: case_prod_beta)

lemma process_asset_eq:
  "process_asset prm inst up cd a (sm, cu) =
     (let t = cursor_get cd (str_of a);
          recs = asset_parent_updates prm inst up cd sm a
      in if (if and_condition prm then (\<forall>(p, u, ts) \<in> set recs. u)
             else (\<exists>(p, u, ts) \<in> set recs. u))
         then (sm @ [a],
               AList.update (str_of a) (Max (insert t ((\<lambda>(p, u, ts). ts) ` set recs)))
                 (AList.update (str_of a) t cu))
         else (sm, AList.update (str_of a) t cu))"
  unfolding process_asset_def Let_def prod.case condition_iff max_cursor_eq ..


lemma fst_process_asset_cases:
  "fst (process_asset prm inst up cd a s) = fst s \<or>
   fst (process_asset prm inst up cd a s) = fst s @ [a]"
  by (cases s) (simp add: process_asset_eq Let_def)

lemma map_of_snd_process_asset_other:
  "k \<noteq> str_of a \<Longrightarrow> map_of (snd (process_asset prm inst up cd a s)) k = map_of (snd s) k"
  by (cases s) (simp add: process_asset_eq Let_def update_conv')

lemma keys_snd_process_asset:
  "fst ` set (snd (process_asset prm inst up cd a s)) = insert (str_of a) (fst ` set (snd s))"
  by (cases s) (simp add: process_asset_eq Let_def dom_update)

lemma process_asset_ge:
  assumes "\<forall>k v. map_of (snd s) k = Some v \<longrightarrow> cursor_get cd k \<le> v"
    and "map_of (snd (process_asset prm inst up cd a s)) k = Some v"
  shows "cursor_get cd k \<le> v"
proof (cases "k = str_of a")
  case False
  with assms show ?thesis by (simp add: map_of_snd_process_asset_other)
next
  case True
  obtain sm cu where s: "s = (sm, cu)" by (cases s)
  let ?recs = "asset_parent_updates prm inst up cd sm a"
  have "cursor_get cd k \<le> Max (insert (cursor_get cd k) ((\<lambda>(p, u, ts). ts) ` set ?recs))"
    by (rule Max_ge) simp_all
  with assms(2) True show ?thesis
    by (auto simp: s process_asset_eq Let_def update_conv' split: if_splits)
qed

lemma fold_launch_lower:
  "set (fst s) \<subseteq> set (fst (fold (process_asset prm inst up cd) ys s))"
proof (induction ys arbitrary: s)
  case Nil
  show ?case by simp
next
  case (Cons y ys)
  have "set (fst s) \<subseteq> set (fst (process_asset prm inst up cd y s))"
    using fst_process_asset_cases[of prm inst up cd y s] by auto
  with Cons[of "process_asset prm inst up cd y s"] show ?case by auto
qed

lemma fold_launch_upper:
  "set (fst (fold (process_asset prm inst up cd) ys s)) \<subseteq> set (fst s) \<union> set ys"
proof (induction ys arbitrary: s)
  case Nil
  show ?case by simp
next
  case (Cons y ys)
  have "set (fst (process_asset prm inst up cd y s)) \<subseteq> set (fst s) \<union> {y}"
    using fst_process_asset_cases[of prm inst up cd y s] by auto
  with Cons[of "process_asset prm inst up cd y s"] show ?case by auto
qed

lemma fold_cursor_other:
  "k \<notin> str_of ` set ys \<Longrightarrow>
   map_of (snd (fold (process_asset prm inst up cd) ys s)) k = map_of (snd s) k"
  by (induction ys arbitrary: s) (simp_all add: map_of_snd_process_asset_other)

lemma fold_cursor_keys:
  "fst ` set (snd (fold (process_asset prm inst up cd) ys s)) =
     fst ` set (snd s) \<union> str_of ` set ys"
  by (induction ys arbitrary: s) (simp_all add: keys_snd_process_asset)

lemma fold_cursor_ge:
  "\<forall>k v. map_of (snd s) k = Some v \<longrightarrow> cursor_get cd k \<le> v \<Longrightarrow>
   map_of (snd (fold (process_asset prm inst up cd) ys s)) k = Some v \<Longrightarrow>
   cursor_get cd k \<le> v"
proof (induction ys arbitrary: s)
  case Nil
  then show ?case by simp
next
  case (Cons y ys)
  have "\<forall>k v. map_of (snd (process_asset prm inst up cd y s)) k = Some v \<longrightarrow>
          cursor_get cd k \<le> v"
    using process_asset_ge[OF Cons.prems(1)] by blast
  from Cons.IH[OF this] Cons.prems(2) show ?case by simp
qed

lemma sensor_decide_Inr:
  "sensor_decide h prm inst up ctx = Inr r \<Longrightarrow>
   \<exists>cd order. load_cursor h ctx = Inr cd \<and> toposort_assets (set_iter h) up = Inr order \<and>
      r = fold (process_asset prm inst up cd) order ([], [])"
  by (auto simp: sensor_decide_def split: sum.splits)

lemma sensor_tick_Some:
  "sensor_tick h prm inst up ctx = Inr (ctx', Some rr) \<Longrightarrow>
   \<exists>L nc. sensor_decide h prm inst up ctx = Inr (L, nc) \<and> L \<noteq> [] \<and>
      ctx' = ctx\<lparr>cursor := Some (json_dumps h nc), cursor_has_been_updated := True\<rparr> \<and>
      rr = \<lparr>run_key = json_dumps h nc, asset_selection = L\<rparr>"
  by (auto simp: sensor_tick_def Let_def split: sum.splits prod.splits if_splits)

subsection \<open>Claims about the per-parent decision\<close>

text \<open>
  Claim C1. When the scan for in-flight parents does not abort (no parent outside the launch
  set \<open>L\<close> has its latest planned materialization in a run in progress, or the flag is off),
  the status of a parent \<open>p\<close> of child \<open>c\<close> with cursor \<open>t_c\<close> is: \<open>(True, 0)\<close> when \<open>p\<close> is in
  \<open>L\<close>; otherwise \<open>(False, 0)\<close> when \<open>p\<close> has no completed materialization or its latest one
  has a timestamp at most \<open>t_c\<close>; otherwise \<open>(False, timestamp)\<close> when \<open>c\<close> is among the assets
  planned in that materialization's run, and \<open>(True, timestamp)\<close> when it is not.
\<close>

theorem parent_evaluation:
  assumes "\<not> (\<exists>q\<in>set P. q \<notin> set L \<and> in_flight inst w q)" and "p \<in> set P"
  shows "map_of (get_parent_updates inst c P t_c L w) p =
     Some (if p \<in> set L then (True, 0)
           else (case latest_completed inst p of
                   None \<Rightarrow> (False, 0)
                 | Some (ts, r) \<Rightarrow>
                     if ts \<le> t_c then (False, 0)
                     else if c \<in> set (planned_assets_in_run inst r) then (False, ts)
                     else (True, ts)))"
  using assms
  by (simp add: get_parent_updates_no_abort map_of_fold_update completed_status_def
      split: option.splits prod.splits)

theorem parent_evaluation_witness:
  "\<not> (\<exists>q\<in>set [''a'', ''b'']. q \<notin> set [] \<and> in_flight log_abc True q) \<and>
   ''a'' \<in> set [''a'', ''b''] \<and>
   map_of (get_parent_updates log_abc ''d'' [''a'', ''b''] 0 [] True) ''a'' = Some (True, 1)"
  using parent_evaluation [of "[''a'', ''b'']" "[]" log_abc True "''a''" "''d''" 0]
  by (simp add: log_abc_def in_flight_def)

lemma toposort_assets_distinct:
  assumes "\<forall>xs. mset (it xs) = mset xs" "distinct (map fst up)"
    "toposort_assets it up = Inr order"
  shows "distinct order"
  using toposort_assets_mset[OF assms] assms(2) by (metis mset_eq_imp_distinct_iff)

text \<open>
  The decision for one child, seen from the whole tick: \<open>before\<close> are the children processed
  earlier and \<open>L\<close> is the launch set they left.
\<close>

lemma tick_child:
  assumes d: "distinct (map fst upstream)" and perm: "\<forall>xs. mset (set_iter h xs) = mset xs"
    and cur: "load_cursor h ctx = Inr cursor_dict"
    and ord: "toposort_assets (set_iter h) upstream = Inr (before @ c # after)"
    and pre: "fold (process_asset prm inst upstream cursor_dict) before ([], []) = (L, cu)"
    and fin: "sensor_decide h prm inst upstream ctx = Inr (Lf, next_cursor)"
  shows "(c \<in> set Lf \<longleftrightarrow>
            (if and_condition prm
             then (\<forall>(p, updated, ts) \<in> set (asset_parent_updates prm inst upstream cursor_dict L c).
                     updated)
             else (\<exists>(p, updated, ts) \<in> set (asset_parent_updates prm inst upstream cursor_dict L c).
                     updated))) \<and>
         map_of next_cursor (str_of c) =
           Some (if c \<in> set Lf
                 then Max (insert (cursor_get cursor_dict (str_of c))
                        ((\<lambda>(p, updated, ts). ts) `
                           set (asset_parent_updates prm inst upstream cursor_dict L c)))
                 else cursor_get cursor_dict (str_of c))"
proof -
  let ?F = "process_asset prm inst upstream cursor_dict"
  let ?recs = "asset_parent_updates prm inst upstream cursor_dict L c"
  let ?launch = "if and_condition prm then (\<forall>(p, u, ts) \<in> set ?recs. u)
                 else (\<exists>(p, u, ts) \<in> set ?recs. u)"
  have dist: "distinct (before @ c # after)"
    by (rule toposort_assets_distinct[OF perm d ord])
  from sensor_decide_Inr[OF fin] cur ord
  have "(Lf, next_cursor) = fold ?F (before @ c # after) ([], [])" by auto
  then have res: "(Lf, next_cursor) = fold ?F after (?F c (L, cu))"
    by (simp add: pre)
  have cL: "c \<notin> set L"
    using fold_launch_upper[of prm inst upstream cursor_dict before "([], [])"] dist
    by (auto simp: pre)
  have c_after: "c \<notin> set after" using dist by auto
  have step_fst: "c \<in> set (fst (?F c (L, cu))) \<longleftrightarrow> ?launch"
    using cL by (simp add: process_asset_eq Let_def)
  have step_snd: "map_of (snd (?F c (L, cu))) (str_of c) =
      Some (if ?launch
            then Max (insert (cursor_get cursor_dict (str_of c)) ((\<lambda>(p, u, ts). ts) ` set ?recs))
            else cursor_get cursor_dict (str_of c))"
    by (simp add: process_asset_eq Let_def update_conv')
  have "c \<in> set Lf \<longleftrightarrow> c \<in> set (fst (?F c (L, cu)))"
    using fold_launch_lower[of "?F c (L, cu)" prm inst upstream cursor_dict after]
      fold_launch_upper[of prm inst upstream cursor_dict after "?F c (L, cu)"] c_after
    by (auto simp: res[symmetric, THEN arg_cong, of fst, simplified])
  with step_fst have a: "c \<in> set Lf \<longleftrightarrow> ?launch" by simp
  have "str_of c \<notin> str_of ` set after"
    using c_after by (auto simp: str_of_def)
  then have "map_of next_cursor (str_of c) = map_of (snd (?F c (L, cu))) (str_of c)"
    using fold_cursor_other[of "str_of c" after prm inst upstream cursor_dict "?F c (L, cu)"]
    by (simp add: res[symmetric, THEN arg_cong, of snd, simplified])
  with step_snd a show ?thesis by simp
qed


subsection \<open>Claims about the tick\<close>

text \<open>
  Claim C2. Let the tick process child \<open>c\<close> after the children \<open>before\<close>, which left the
  launch set \<open>L\<close>. Then \<open>c\<close> is in the launch set of the tick iff, in all-mode, every parent
  status of \<open>c\<close> has its updated flag set, and in any-mode, at least one has. When \<open>c\<close>
  launches, its entry in the next cursor is the maximum of its cursor \<open>t_c\<close> and the
  timestamps of its parent statuses; when it does not launch, the entry is \<open>t_c\<close>.
\<close>

theorem launch_decision:
  assumes d: "distinct (map fst upstream)" and perm: "\<forall>xs. mset (set_iter h xs) = mset xs"
    and cur: "load_cursor h ctx = Inr cursor_dict"
    and ord: "toposort_assets (set_iter h) upstream = Inr (before @ c # after)"
    and pre: "fold (process_asset prm inst upstream cursor_dict) before ([], []) = (L, cu)"
    and fin: "sensor_decide h prm inst upstream ctx = Inr (Lf, next_cursor)"
  shows "(c \<in> set Lf \<longleftrightarrow>
            (if and_condition prm
             then (\<forall>(p, updated, ts) \<in> set (asset_parent_updates prm inst upstream cursor_dict L c).
                     updated)
             else (\<exists>(p, updated, ts) \<in> set (asset_parent_updates prm inst upstream cursor_dict L c).
                     updated))) \<and>
         map_of next_cursor (str_of c) =
           Some (if c \<in> set Lf
                 then Max (insert (cursor_get cursor_dict (str_of c))
                        ((\<lambda>(p, updated, ts). ts) `
                           set (asset_parent_updates prm inst upstream cursor_dict L c)))
                 else cursor_get cursor_dict (str_of c))"
  using assms by (rule tick_child)

lemma host_texts_perm: "\<forall>xs. mset (set_iter host_texts xs) = mset xs"
  by (simp add: host_texts_def)

theorem launch_decision_witness:
  "distinct (map fst example_graph) \<and>
   (\<forall>xs. mset (set_iter host_texts xs) = mset xs) \<and>
   load_cursor host_texts fresh_context = Inr [] \<and>
   toposort_assets (set_iter host_texts) example_graph = Inr ([''d'', ''e''] @ ''f'' # []) \<and>
   fold (process_asset all_mode log_abc example_graph []) [''d'', ''e''] ([], []) =
     ([''d'', ''e''], [(''d'', 2), (''e'', 3)]) \<and>
   sensor_decide host_texts all_mode log_abc example_graph fresh_context =
     Inr ([''d'', ''e'', ''f''], [(''d'', 2), (''e'', 3), (''f'', 0)]) \<and>
   asset_parent_updates all_mode log_abc example_graph [] [''d'', ''e''] ''f'' =
     [(''d'', True, 0), (''e'', True, 0)] \<and>
   ((''f'' \<in> set [''d'', ''e'', ''f'']) =
      (if and_condition all_mode
       then (\<forall>(p, updated, ts) \<in> set (asset_parent_updates all_mode log_abc example_graph []
                                          [''d'', ''e''] ''f''). updated)
       else (\<exists>(p, updated, ts) \<in> set (asset_parent_updates all_mode log_abc example_graph []
                                          [''d'', ''e''] ''f''). updated))) \<and>
   map_of [(''d'', 2), (''e'', 3), (''f'', 0)] (str_of ''f'') =
     Some (if ''f'' \<in> set [''d'', ''e'', ''f'']
           then Max (insert (cursor_get [] (str_of ''f''))
                  ((\<lambda>(p, updated, ts). ts) `
                     set (asset_parent_updates all_mode log_abc example_graph [] [''d'', ''e''] ''f'')))
           else cursor_get [] (str_of ''f''))"
proof -
  have h1: "distinct (map fst example_graph)" by code_simp
  have h3: "load_cursor host_texts fresh_context = Inr []" by code_simp
  have h4: "toposort_assets (set_iter host_texts) example_graph = Inr ([''d'', ''e''] @ ''f'' # [])"
    by code_simp
  have h5: "fold (process_asset all_mode log_abc example_graph []) [''d'', ''e''] ([], []) =
     ([''d'', ''e''], [(''d'', 2), (''e'', 3)])" by code_simp
  have h6: "sensor_decide host_texts all_mode log_abc example_graph fresh_context =
     Inr ([''d'', ''e'', ''f''], [(''d'', 2), (''e'', 3), (''f'', 0)])" by code_simp
  have h7: "asset_parent_updates all_mode log_abc example_graph [] [''d'', ''e''] ''f'' =
     [(''d'', True, 0), (''e'', True, 0)]" by code_simp
  from launch_decision[OF h1 host_texts_perm h3 h4 h5 h6] h1 host_texts_perm h3 h4 h5 h6 h7
  show ?thesis by blast
qed

text \<open>
  Claim C6. When a tick writes the cursor, the value written for a monitored child \<open>c\<close> is
  at least the value that the persisted cursor string held for \<open>c\<close> before the tick: the
  entry of \<open>c\<close> in the dictionary that the string decodes to, or 0 when the string is
  absent or empty or the dictionary has no entry for \<open>c\<close>.
\<close>

theorem cursor_monotone:
  assumes d: "distinct (map fst upstream)" and perm: "\<forall>xs. mset (set_iter h xs) = mset xs"
    and tick: "sensor_tick h prm inst upstream ctx = Inr (ctx', Some rr)"
    and mon: "c \<in> set (map fst upstream)"
  shows "\<exists>next_cursor v. cursor ctx' = Some (json_dumps h next_cursor) \<and>
           map_of next_cursor (str_of c) = Some v \<and>
           (case cursor ctx of
              None \<Rightarrow> 0 \<le> v
            | Some s \<Rightarrow>
                if s = [] then 0 \<le> v
                else (\<exists>dict. json_loads h s = Inr dict \<and>
                        (case map_of dict (str_of c) of None \<Rightarrow> 0 \<le> v | Some t \<Rightarrow> t \<le> v)))"
proof -
  from sensor_tick_Some[OF tick] obtain L nc where
    dec: "sensor_decide h prm inst upstream ctx = Inr (L, nc)" and
    ctx': "ctx' = ctx\<lparr>cursor := Some (json_dumps h nc), cursor_has_been_updated := True\<rparr>"
    by blast
  from sensor_decide_Inr[OF dec] obtain cursor_dict order where
    cur: "load_cursor h ctx = Inr cursor_dict" and
    ord: "toposort_assets (set_iter h) upstream = Inr order" and
    res: "(L, nc) = fold (process_asset prm inst upstream cursor_dict) order ([], [])"
    by blast
  have "set order = set (map fst upstream)"
    using toposort_assets_mset[OF perm d ord] by (rule mset_eq_setD)
  with mon have "str_of c \<in> str_of ` set order" by simp
  then have "str_of c \<in> fst ` set nc"
    using fold_cursor_keys[of prm inst upstream cursor_dict order "([], [])"]
    by (simp add: res[symmetric, THEN arg_cong, of snd, simplified])
  then obtain v where v: "map_of nc (str_of c) = Some v"
    by (metis domD dom_map_of_conv_image_fst)
  have ge: "cursor_get cursor_dict (str_of c) \<le> v"
    using fold_cursor_ge[of "([], [])" cursor_dict prm inst upstream order "str_of c" v] v
    by (simp add: res[symmetric, THEN arg_cong, of snd, simplified])
  have c1: "cursor ctx' = Some (json_dumps h nc)" by (simp add: ctx')
  have "case cursor ctx of
          None \<Rightarrow> 0 \<le> v
        | Some s \<Rightarrow>
            if s = [] then 0 \<le> v
            else (\<exists>dict. json_loads h s = Inr dict \<and>
                    (case map_of dict (str_of c) of None \<Rightarrow> 0 \<le> v | Some t \<Rightarrow> t \<le> v))"
    using cur ge
    by (auto simp: load_cursor_def cursor_get_def split: option.splits if_splits)
  with c1 v show ?thesis by blast
qed


text \<open>
  Claim C7. A tick whose launch set ends up empty returns the context as it received it,
  so the persisted cursor string is the same string, and emits no run request.
\<close>

theorem empty_launch_keeps_cursor:
  assumes "sensor_decide h prm inst upstream ctx = Inr ([], next_cursor)"
  shows "sensor_tick h prm inst upstream ctx = Inr (ctx, None)"
  using assms by (simp add: sensor_tick_def)

lemma distinct_snd_process_asset:
  "distinct (map fst (snd s)) \<Longrightarrow>
   distinct (map fst (snd (process_asset prm inst up cd a s)))"
  by (cases s) (simp add: process_asset_eq Let_def distinct_update)

lemma fold_cursor_distinct:
  "distinct (map fst (snd s)) \<Longrightarrow>
   distinct (map fst (snd (fold (process_asset prm inst up cd) ys s)))"
  by (induction ys arbitrary: s) (simp_all add: distinct_snd_process_asset)

text \<open>
  Claim C10. When a tick writes the cursor, the keys of the written cursor map are exactly
  the monitored children of the tick, in string form, each once: a child that did not
  launch has an entry, and a key of the old cursor that is no longer monitored has none.
\<close>

theorem written_cursor_keys:
  assumes d: "distinct (map fst upstream)" and perm: "\<forall>xs. mset (set_iter h xs) = mset xs"
    and tick: "sensor_tick h prm inst upstream ctx = Inr (ctx', Some rr)"
  shows "\<exists>next_cursor. cursor ctx' = Some (json_dumps h next_cursor) \<and>
           distinct (map fst next_cursor) \<and>
           set (map fst next_cursor) = str_of ` set (map fst upstream)"
proof -
  from sensor_tick_Some[OF tick] obtain L nc where
    dec: "sensor_decide h prm inst upstream ctx = Inr (L, nc)" and
    ctx': "ctx' = ctx\<lparr>cursor := Some (json_dumps h nc), cursor_has_been_updated := True\<rparr>"
    by blast
  from sensor_decide_Inr[OF dec] obtain cd order where
    ord: "toposort_assets (set_iter h) upstream = Inr order" and
    res: "(L, nc) = fold (process_asset prm inst upstream cd) order ([], [])"
    by auto
  have so: "set order = set (map fst upstream)"
    using toposort_assets_mset[OF perm d ord] by (rule mset_eq_setD)
  have "fst ` set nc = str_of ` set order"
    using fold_cursor_keys[of prm inst upstream cd order "([], [])"]
    by (simp add: res[symmetric, THEN arg_cong, of snd, simplified])
  with so have k: "set (map fst nc) = str_of ` set (map fst upstream)" by simp
  have "distinct (map fst nc)"
    using fold_cursor_distinct[of "([], [])" prm inst upstream cd order]
    by (simp add: res[symmetric, THEN arg_cong, of snd, simplified])
  with k ctx' show ?thesis by auto
qed


theorem cursor_monotone_witness:
  "distinct (map fst example_graph) \<and>
   (\<forall>xs. mset (set_iter host_texts xs) = mset xs) \<and>
   sensor_tick host_texts any_mode log_bd example_graph example_context =
     Inr (context_bd,
          Some \<lparr>run_key = the (cursor context_bd), asset_selection = [''d'', ''e'', ''f'']\<rparr>) \<and>
   ''d'' \<in> set (map fst example_graph) \<and>
   cursor example_context \<noteq> None \<and> cursor example_context \<noteq> Some [] \<and>
   json_loads host_texts (the (cursor example_context)) =
     Inr [(''d'', 2), (''e'', 3), (''f'', 0)] \<and>
   map_of [(''d'', 2), (''e'', 3), (''f'', 0 :: timestamp)] (str_of ''d'') = Some 2 \<and>
   (\<exists>next_cursor v. cursor context_bd = Some (json_dumps host_texts next_cursor) \<and>
      map_of next_cursor (str_of ''d'') = Some v \<and> (2 :: timestamp) \<le> v)"
proof -
  have h1: "distinct (map fst example_graph)" by code_simp
  have h3: "sensor_tick host_texts any_mode log_bd example_graph example_context =
     Inr (context_bd,
          Some \<lparr>run_key = the (cursor context_bd), asset_selection = [''d'', ''e'', ''f'']\<rparr>)"
    by code_simp
  have h4: "''d'' \<in> set (map fst example_graph)" by code_simp
  have c: "cursor example_context = Some (the (cursor example_context))"
    "the (cursor example_context) \<noteq> []" by code_simp+
  have l: "json_loads host_texts (the (cursor example_context)) =
     Inr [(''d'', 2), (''e'', 3), (''f'', 0)]" by code_simp
  have m: "map_of [(''d'', 2), (''e'', 3), (''f'', 0 :: timestamp)] (str_of ''d'') = Some 2"
    by code_simp
  from cursor_monotone[OF h1 host_texts_perm h3 h4] obtain next_cursor v where
    w: "cursor context_bd = Some (json_dumps host_texts next_cursor)"
       "map_of next_cursor (str_of ''d'') = Some v" and
    b: "case cursor example_context of
          None \<Rightarrow> 0 \<le> v
        | Some s \<Rightarrow>
            if s = [] then 0 \<le> v
            else (\<exists>dict. json_loads host_texts s = Inr dict \<and>
                    (case map_of dict (str_of ''d'') of None \<Rightarrow> 0 \<le> v | Some t \<Rightarrow> t \<le> v))"
    by blast
  from b c l m have "2 \<le> v"
    by (cases "cursor example_context") auto
  with w have e: "\<exists>next_cursor v. cursor context_bd = Some (json_dumps host_texts next_cursor) \<and>
      map_of next_cursor (str_of ''d'') = Some v \<and> (2 :: timestamp) \<le> v" by blast
  from c have "cursor example_context \<noteq> None" "cursor example_context \<noteq> Some []"
    by auto
  with h1 host_texts_perm h3 h4 l m e show ?thesis by blast
qed

theorem empty_launch_keeps_cursor_witness:
  "sensor_decide host_texts all_mode log_abc example_graph example_context =
     Inr ([], [(''d'', 2), (''e'', 3), (''f'', 0)]) \<and>
   sensor_tick host_texts all_mode log_abc example_graph example_context = Inr (example_context, None)"
proof -
  have h1: "sensor_decide host_texts all_mode log_abc example_graph example_context =
     Inr ([], [(''d'', 2), (''e'', 3), (''f'', 0)])" by code_simp
  from empty_launch_keeps_cursor[OF h1] h1 show ?thesis by blast
qed

theorem written_cursor_keys_witness:
  "distinct (map fst example_graph) \<and>
   (\<forall>xs. mset (set_iter host_texts xs) = mset xs) \<and>
   sensor_tick host_texts all_mode log_abc example_graph fresh_context =
     Inr (example_context,
          Some \<lparr>run_key = the (cursor example_context), asset_selection = [''d'', ''e'', ''f'']\<rparr>) \<and>
   (\<exists>next_cursor. cursor example_context = Some (json_dumps host_texts next_cursor) \<and>
      distinct (map fst next_cursor) \<and>
      set (map fst next_cursor) = str_of ` set (map fst example_graph))"
proof -
  have h1: "distinct (map fst example_graph)" by code_simp
  have h4: "sensor_tick host_texts all_mode log_abc example_graph fresh_context =
     Inr (example_context,
          Some \<lparr>run_key = the (cursor example_context), asset_selection = [''d'', ''e'', ''f'']\<rparr>)"
    by code_simp
  from written_cursor_keys[OF h1 host_texts_perm h4] h1 host_texts_perm h4
  show ?thesis by blast
qed

subsection \<open>In-flight parents\<close>

text \<open>
  Claim C3. With \<^verbatim>\<open>wait_for_in_progress_runs\<close> set, a child one of whose parents has a planned
  materialization inside a run in progress should not launch, and every parent should get
  the status \<open>(False, 0)\<close>. The docstrings say the same (lines 70 to 77: for each parent
  asset we check if it has a planned asset materialization event in a run that is currently
  in progress; lines 329 and 330). The code misses two cases.

  It looks only at the most recent planned materialization of a parent. On the chain, run
  \<open>r1\<close> planned \<open>p\<close> and is still in progress, but the latest planned record of \<open>p\<close> belongs
  to the finished run \<open>r2\<close>, which materialized \<open>p\<close> at time 4: the status of \<open>p\<close> is
  \<open>(True, 4)\<close> and \<open>c\<close> launches.

  It does not look at a parent that is in the launch set. On the chain, \<open>p\<close> launches (its
  parent \<open>a\<close> has a new materialization) while a run that planned \<open>p\<close> is in progress, and
  \<open>c\<close> launches with it: the status of \<open>p\<close> for \<open>c\<close> is \<open>(True, 0)\<close>.
\<close>

theorem in_flight_parent_missed:
  "wait_for_in_progress_runs all_mode \<and>
   ''p'' \<in> set (parents_of chain_graph ''c'') \<and>
   ''p'' \<in> set (planned_assets_in_run log_chain_older_running ''r1'') \<and>
   run_in_progress log_chain_older_running ''r1'' \<and>
   fold (process_asset all_mode log_chain_older_running chain_graph []) [''p''] ([], []) =
     ([], [(''p'', 0)]) \<and>
   asset_parent_updates all_mode log_chain_older_running chain_graph [] [] ''c'' =
     [(''p'', True, 4)] \<and>
   sensor_decide host_texts all_mode log_chain_older_running chain_graph fresh_context =
     Inr ([''c''], [(''p'', 0), (''c'', 4)]) \<and>
   latest_planned log_chain_p_running ''p'' = Some ''r9'' \<and>
   run_in_progress log_chain_p_running ''r9'' \<and>
   fold (process_asset all_mode log_chain_p_running chain_graph []) [''p''] ([], []) =
     ([''p''], [(''p'', 5)]) \<and>
   asset_parent_updates all_mode log_chain_p_running chain_graph [] [''p''] ''c'' =
     [(''p'', True, 0)] \<and>
   sensor_decide host_texts all_mode log_chain_p_running chain_graph fresh_context =
     Inr ([''p'', ''c''], [(''p'', 5), (''c'', 0)])"
  by code_simp

text \<open>
  What the code does guarantee: if a parent \<open>p\<close> of \<open>c\<close> that is not in the launch set has
  its most recent planned materialization in a run in progress, then every parent of \<open>c\<close>
  gets the status \<open>(False, 0)\<close>, \<open>c\<close> is not in the launch set of the tick, whatever the
  other parents' completions are, and its next-cursor entry is its cursor.
\<close>

lemma in_flight_latest_planned:
  assumes d: "distinct (map fst upstream)" and perm: "\<forall>xs. mset (set_iter h xs) = mset xs"
    and cur: "load_cursor h ctx = Inr cursor_dict"
    and ord: "toposort_assets (set_iter h) upstream = Inr (before @ c # after)"
    and pre: "fold (process_asset prm inst upstream cursor_dict) before ([], []) = (L, cu)"
    and fin: "sensor_decide h prm inst upstream ctx = Inr (Lf, next_cursor)"
    and wait: "wait_for_in_progress_runs prm"
    and par: "p \<in> set (parents_of upstream c)" and notL: "p \<notin> set L"
    and planned: "latest_planned inst p = Some r" and running: "run_in_progress inst r"
  shows "asset_parent_updates prm inst upstream cursor_dict L c =
           map (\<lambda>q. (q, (False, 0))) (parents_of upstream c) \<and>
         c \<notin> set Lf \<and>
         map_of next_cursor (str_of c) = Some (cursor_get cursor_dict (str_of c))"
proof -
  let ?recs = "asset_parent_updates prm inst upstream cursor_dict L c"
  have fl: "in_flight inst (wait_for_in_progress_runs prm) p"
    using wait planned running by (simp add: in_flight_def)
  have recs: "?recs = map (\<lambda>q. (q, (False, 0))) (parents_of upstream c)"
    unfolding asset_parent_updates_def
    using par notL fl by (intro get_parent_updates_abort) blast
  have mem: "(p, False, 0) \<in> set ?recs"
    using par by (auto simp: recs)
  have no: "\<not> (if and_condition prm then (\<forall>(q, u, ts) \<in> set ?recs. u)
                else (\<exists>(q, u, ts) \<in> set ?recs. u))"
  proof (cases "and_condition prm")
    case True
    with mem show ?thesis by (auto intro!: bexI[of _ "(p, False, 0)"])
  next
    case False
    then show ?thesis by (auto simp: recs)
  qed
  from tick_child[OF d perm cur ord pre fin] no
  have "c \<notin> set Lf"
    and "map_of next_cursor (str_of c) = Some (cursor_get cursor_dict (str_of c))"
    by simp_all
  with recs show ?thesis by simp
qed


lemma in_flight_latest_planned_example:
  "distinct (map fst chain_graph) \<and>
   (\<forall>xs. mset (set_iter host_texts xs) = mset xs) \<and>
   load_cursor host_texts fresh_context = Inr [] \<and>
   toposort_assets (set_iter host_texts) chain_graph = Inr ([] @ ''p'' # [''c'']) \<and>
   fold (process_asset all_mode log_chain_a_running chain_graph []) [] ([], []) = ([], []) \<and>
   sensor_decide host_texts all_mode log_chain_a_running chain_graph fresh_context = Inr ([], [(''p'', 0), (''c'', 0)]) \<and>
   wait_for_in_progress_runs all_mode \<and>
   ''a'' \<in> set (parents_of chain_graph ''p'') \<and> ''a'' \<notin> set [] \<and>
   asset_parent_updates all_mode log_chain_a_running chain_graph [] [] ''p'' = map (\<lambda>q. (q, (False, 0))) (parents_of chain_graph ''p'') \<and>
   ''p'' \<notin> set [] \<and>
   map_of [(''p'', 0), (''c'', 0)] (str_of ''p'') = Some (cursor_get [] (str_of ''p''))"
proof -
  let ?log = "log_chain_a_running"
  have h1: "distinct (map fst chain_graph)" by code_simp
  have h3: "load_cursor host_texts fresh_context = Inr []" by code_simp
  have h4: "toposort_assets (set_iter host_texts) chain_graph = Inr ([] @ ''p'' # [''c''])"
    by code_simp
  have h5: "fold (process_asset all_mode ?log chain_graph []) [] ([], []) = ([], [])" by simp
  have h6: "sensor_decide host_texts all_mode ?log chain_graph fresh_context =
     Inr ([], [(''p'', 0), (''c'', 0)])" by code_simp
  have h7: "wait_for_in_progress_runs all_mode" by code_simp
  have h8: "''a'' \<in> set (parents_of chain_graph ''p'')" by code_simp
  have h9: "''a'' \<notin> set []" by simp
  have h10: "latest_planned ?log ''a'' = Some ''r2''" by code_simp
  have h11: "run_in_progress ?log ''r2''" by code_simp
  from in_flight_latest_planned[OF h1 host_texts_perm h3 h4 h5 h6 h7 h8 h9 h10 h11]
    h1 host_texts_perm h3 h4 h5 h6 h7 h8 h9
  show ?thesis by blast
qed

subsection \<open>Parent and child materialized by the same run\<close>

text \<open>
  Claim C4. If the most recent completed materialization of a parent happened in a run
  that also materialized the child, that event alone should never make the child launch,
  and the persisted cursor entry of the child should advance past the event's timestamp.
  The comments say the same (lines 136 and 137: if the run for the materialization of p
  also materialized current_asset, we don't consider p updated; lines 147 and 148: we
  still update the cursor for p so this materialization isn't considered on the next
  sensor tick). The code misses both halves.

  The cursor does not advance. In the docstring graph with cursor \<open>d: 2, e: 3, f: 0\<close>, run
  \<open>r4\<close> planned and materialized both \<open>b\<close> and \<open>d\<close> at time 6. The status of \<open>b\<close> for \<open>d\<close> is
  \<open>(False, 6)\<close>; in all-mode it keeps \<open>d\<close> from launching, and line 228 takes the
  timestamps of the statuses only when the child launches. Nothing else launches, and the
  tick leaves the persisted cursor as it was: the entry of \<open>d\<close> is still 2.

  The test of line 146 reads the planned records of the run, not its materializations.
  When run \<open>r4\<close> materialized \<open>b\<close> and \<open>d\<close> without planned records, the status of \<open>b\<close> for \<open>d\<close>
  is \<open>(True, 6)\<close>, and in any-mode this event alone makes \<open>d\<close> launch.
\<close>

theorem co_materialized_cursor_not_advanced:
  "latest_completed log_bd ''b'' = Some (6, ''r4'') \<and>
   latest_completed log_bd ''d'' = Some (6, ''r4'') \<and>
   ''d'' \<in> set (planned_assets_in_run log_bd ''r4'') \<and>
   load_cursor host_texts example_context = Inr [(''d'', 2), (''e'', 3), (''f'', 0)] \<and>
   asset_parent_updates all_mode log_bd example_graph [(''d'', 2), (''e'', 3), (''f'', 0)] [] ''d'' =
     [(''a'', True, 7), (''b'', False, 6)] \<and>
   sensor_decide host_texts all_mode log_bd example_graph example_context =
     Inr ([], [(''d'', 2), (''e'', 3), (''f'', 0)]) \<and>
   sensor_tick host_texts all_mode log_bd example_graph example_context =
     Inr (example_context, None) \<and>
   latest_completed log_bd_unplanned ''b'' = Some (6, ''r4'') \<and>
   latest_completed log_bd_unplanned ''d'' = Some (6, ''r4'') \<and>
   asset_parent_updates any_mode log_bd_unplanned example_graph
     [(''d'', 2), (''e'', 3), (''f'', 0)] [] ''d'' = [(''a'', False, 0), (''b'', True, 6)] \<and>
   sensor_decide host_texts any_mode log_bd_unplanned example_graph example_context =
     Inr ([''d'', ''e'', ''f''], [(''d'', 6), (''e'', 6), (''f'', 0)])"
  by code_simp

text \<open>
  What the code does guarantee: if the latest completed materialization of a parent \<open>p\<close>
  of \<open>c\<close>, at time \<open>ts\<close>, happened in a run that has a planned record for \<open>c\<close>, and \<open>p\<close> is not
  in the launch set, then the updated flag of \<open>p\<close> is false, and in all-mode \<open>c\<close> does not
  launch in this tick. When \<open>c\<close> launches in this tick (in any-mode, through another
  parent), its entry in the next cursor is at least \<open>ts\<close>.
\<close>

lemma co_planned_status:
  assumes d: "distinct (map fst upstream)" and perm: "\<forall>xs. mset (set_iter h xs) = mset xs"
    and cur: "load_cursor h ctx = Inr cursor_dict"
    and ord: "toposort_assets (set_iter h) upstream = Inr (before @ c # after)"
    and pre: "fold (process_asset prm inst upstream cursor_dict) before ([], []) = (L, cu)"
    and fin: "sensor_decide h prm inst upstream ctx = Inr (Lf, next_cursor)"
    and par: "p \<in> set (parents_of upstream c)" and notL: "p \<notin> set L"
    and comp: "latest_completed inst p = Some (ts, r)"
    and co: "c \<in> set (planned_assets_in_run inst r)"
  shows "(\<exists>t. map_of (asset_parent_updates prm inst upstream cursor_dict L c) p = Some (False, t)) \<and>
         (and_condition prm \<longrightarrow> c \<notin> set Lf) \<and>
         (c \<in> set Lf \<longrightarrow> (\<exists>v. map_of next_cursor (str_of c) = Some v \<and> ts \<le> v))"
proof -
  let ?P = "parents_of upstream c"
  let ?t = "cursor_get cursor_dict (str_of c)"
  let ?w = "wait_for_in_progress_runs prm"
  let ?recs = "asset_parent_updates prm inst upstream cursor_dict L c"
  let ?launch = "if and_condition prm then (\<forall>(q, u, t) \<in> set ?recs. u)
                 else (\<exists>(q, u, t) \<in> set ?recs. u)"
  note tc = tick_child[OF d perm cur ord pre fin]
  have cs: "completed_status inst c ?t p = (if ts > ?t then (False, ts) else (False, 0))"
    using comp co by (simp add: completed_status_def)
  show ?thesis
  proof (cases "\<exists>q\<in>set ?P. q \<notin> set L \<and> in_flight inst ?w q")
    case True
    then have recs: "?recs = map (\<lambda>q. (q, (False, 0))) ?P"
      unfolding asset_parent_updates_def by (rule get_parent_updates_abort)
    have mp: "map_of ?recs p = Some (False, 0)"
      using par by (simp add: recs map_of_map_restrict)
    have mem: "(p, False, 0) \<in> set ?recs"
      using par by (auto simp: recs)
    have no: "\<not> ?launch"
    proof (cases "and_condition prm")
      case True
      with mem show ?thesis by (auto intro!: bexI[of _ "(p, False, 0)"])
    next
      case False
      then show ?thesis by (auto simp: recs)
    qed
    with tc have "c \<notin> set Lf" "map_of next_cursor (str_of c) = Some ?t"
      by simp_all
    with mp show ?thesis by simp
  next
    case False
    then have recs: "?recs = fold (\<lambda>q. AList.update q
        (if q \<in> set L then (True, 0) else completed_status inst c ?t q)) ?P []"
      unfolding asset_parent_updates_def by (rule get_parent_updates_no_abort)
    have mp: "map_of ?recs p = Some (completed_status inst c ?t p)"
      using par notL by (simp add: recs map_of_fold_update)
    have mem: "(p, completed_status inst c ?t p) \<in> set ?recs"
      using par notL by (auto simp: recs set_fold_update)
    obtain t0 where t0: "completed_status inst c ?t p = (False, t0)"
      "ts > ?t \<longrightarrow> t0 = ts"
      using cs by (cases "ts > ?t") auto
    have mem0: "(p, False, t0) \<in> set ?recs"
      using mem t0(1) by simp
    have a: "\<exists>t. map_of ?recs p = Some (False, t)"
      using mp t0(1) by auto
    have b: "and_condition prm \<longrightarrow> c \<notin> set Lf"
    proof
      assume ac: "and_condition prm"
      have "\<not> (\<forall>(q, u, t) \<in> set ?recs. u)"
        using mem0 by (auto intro!: bexI[of _ "(p, False, t0)"])
      with tc ac show "c \<notin> set Lf" by simp
    qed
    have ge: "ts \<le> Max (insert ?t ((\<lambda>(q, u, t). t) ` set ?recs))"
    proof (cases "ts > ?t")
      case True
      with mem0 t0(2) have "ts \<in> (\<lambda>(q, u, t). t) ` set ?recs"
        by (auto intro!: image_eqI[of _ _ "(p, False, ts)"])
      then show ?thesis by (intro Max_ge) auto
    next
      case False
      then have "ts \<le> ?t" by simp
      also have "?t \<le> Max (insert ?t ((\<lambda>(q, u, t). t) ` set ?recs))"
        by (intro Max_ge) auto
      finally show ?thesis .
    qed
    from tc ge a b show ?thesis by auto
  qed
qed


lemma co_planned_status_example:
  "distinct (map fst example_graph) \<and>
   (\<forall>xs. mset (set_iter host_texts xs) = mset xs) \<and>
   load_cursor host_texts example_context = Inr [(''d'', 2), (''e'', 3), (''f'', 0)] \<and>
   toposort_assets (set_iter host_texts) example_graph = Inr ([] @ ''d'' # [''e'', ''f'']) \<and>
   fold (process_asset any_mode log_bd example_graph [(''d'', 2), (''e'', 3), (''f'', 0)]) []
     ([], []) = ([], []) \<and>
   sensor_decide host_texts any_mode log_bd example_graph example_context =
     Inr ([''d'', ''e'', ''f''], [(''d'', 7), (''e'', 6), (''f'', 0)]) \<and>
   ''b'' \<in> set (parents_of example_graph ''d'') \<and> ''b'' \<notin> set [] \<and>
   latest_completed log_bd ''b'' = Some (6, ''r4'') \<and>
   ''d'' \<in> set (planned_assets_in_run log_bd ''r4'') \<and>
   map_of (asset_parent_updates any_mode log_bd example_graph [(''d'', 2), (''e'', 3), (''f'', 0)]
             [] ''d'') ''b'' = Some (False, 6) \<and>
   (\<exists>v. map_of [(''d'', 7), (''e'', 6), (''f'', 0)] (str_of ''d'') = Some v \<and> (6::real) \<le> v)"
proof -
  let ?cd = "[(''d'', 2), (''e'', 3), (''f'', 0)] :: cursor_map"
  have h1: "distinct (map fst example_graph)" by code_simp
  have h3: "load_cursor host_texts example_context = Inr ?cd" by code_simp
  have h4: "toposort_assets (set_iter host_texts) example_graph = Inr ([] @ ''d'' # [''e'', ''f''])"
    by code_simp
  have h5: "fold (process_asset any_mode log_bd example_graph ?cd) [] ([], []) = ([], [])" by simp
  have h6: "sensor_decide host_texts any_mode log_bd example_graph example_context =
     Inr ([''d'', ''e'', ''f''], [(''d'', 7), (''e'', 6), (''f'', 0)])" by code_simp
  have h7: "''b'' \<in> set (parents_of example_graph ''d'')" by code_simp
  have h8: "''b'' \<notin> set []" by simp
  have h9: "latest_completed log_bd ''b'' = Some (6, ''r4'')" by code_simp
  have h10: "''d'' \<in> set (planned_assets_in_run log_bd ''r4'')" by code_simp
  have h11: "map_of (asset_parent_updates any_mode log_bd example_graph ?cd [] ''d'') ''b'' =
     Some (False, 6)" by code_simp
  have h12: "''d'' \<in> set [''d'', ''e'', ''f'']" by simp
  from co_planned_status[OF h1 host_texts_perm h3 h4 h5 h6 h7 h8 h9 h10] h12
  have "\<exists>v. map_of [(''d'', 7), (''e'', 6), (''f'', 0)] (str_of ''d'') = Some v \<and> (6::real) \<le> v"
    by blast
  with h1 host_texts_perm h3 h4 h5 h6 h7 h8 h9 h10 h11
  show ?thesis by blast
qed

lemma toposort_loop_total:
  "\<forall>(b, deps) \<in> set data. set deps \<subseteq> set (map fst data) \<Longrightarrow>
   \<forall>(b, deps) \<in> set data. \<forall>a \<in> set deps. (rank a :: nat) < rank b \<Longrightarrow>
   \<exists>layers. toposort_loop it data = Inr layers"
proof (induction it data rule: toposort_loop.induct)
  case (1 it data)
  show ?case
  proof (cases "no_deps data = []")
    case True
    have "data = []"
    proof (rule ccontr)
      assume "data \<noteq> []"
      then obtain x0 where "x0 \<in> set data" by (cases data) auto
      from ex_has_least_nat[of "\<lambda>x. x \<in> set data" x0 "\<lambda>x. rank (fst x)", OF this]
      obtain x where x: "x \<in> set data" and least: "\<forall>y. y \<in> set data \<longrightarrow> rank (fst x) \<le> rank (fst y)"
        by blast
      obtain b deps where bd: "x = (b, deps)" by (cases x)
      have "deps \<noteq> []"
      proof
        assume "deps = []"
        with x bd have "b \<in> set (no_deps data)" by (force simp: no_deps_def)
        with True show False by simp
      qed
      then obtain a where a: "a \<in> set deps" by (cases deps) auto
      with "1.prems"(1) x bd have "a \<in> set (map fst data)" by auto
      then obtain da where da: "(a, da) \<in> set data" by auto
      from "1.prems"(2) x bd a have "rank a < rank b" by auto
      moreover from least da bd have "rank b \<le> rank a" by auto
      ultimately show False by simp
    qed
    with True show ?thesis by (subst toposort_loop.simps) simp
  next
    case False
    let ?o = "no_deps data"
    let ?rest = "remove_ordered ?o data"
    have c: "\<forall>(b, deps) \<in> set ?rest. set deps \<subseteq> set (map fst ?rest)"
      using "1.prems"(1) unfolding keys_remove_ordered
      by (auto simp: remove_ordered_def)
    have r: "\<forall>(b, deps) \<in> set ?rest. \<forall>a \<in> set deps. rank a < rank b"
      using "1.prems"(2) by (auto simp: remove_ordered_def)
    from "1.IH"[OF False c r] obtain ls where "toposort_loop it ?rest = Inr ls" by blast
    with False show ?thesis by (simp add: toposort_loop.simps[of it data])
  qed
qed

lemma toposort_assets_total:
  assumes "\<forall>(b, deps) \<in> set up. \<forall>a \<in> set deps. a \<noteq> b \<longrightarrow> (rank a :: nat) < rank b"
  shows "\<exists>order. toposort_assets it up = Inr order"
proof (cases "up = []")
  case True
  then show ?thesis by (simp add: toposort_assets_def toposort_def)
next
  case False
  let ?d1 = "map (\<lambda>(item, dep). (item, filter (\<lambda>e. e \<noteq> item) dep)) up"
  let ?extra = "filter (\<lambda>e. e \<notin> set (map fst ?d1)) (remdups (concat (map snd ?d1)))"
  have init: "toposort_init up = ?d1 @ map (\<lambda>item. (item, [] :: asset_key list)) ?extra"
    unfolding toposort_init_def Let_def by (rule refl)
  have k: "set (map fst (toposort_init up)) = set (map fst ?d1) \<union> set ?extra"
    unfolding init by (simp add: image_Un image_image)
  have cc: "a \<in> set (concat (map snd ?d1))" if "(b, deps) \<in> set ?d1" "a \<in> set deps"
    for a b deps
    using that by force
  have c: "\<forall>(b, deps) \<in> set (toposort_init up). set deps \<subseteq> set (map fst (toposort_init up))"
  proof (clarify)
    fix b deps a
    assume m: "(b, deps) \<in> set (toposort_init up)" and a: "a \<in> set deps"
    from m a have "(b, deps) \<in> set ?d1" unfolding init by auto
    from cc[OF this a] show "a \<in> set (map fst (toposort_init up))"
      unfolding k by (cases "a \<in> set (map fst ?d1)") simp_all
  qed
  have r: "\<forall>(b, deps) \<in> set (toposort_init up). \<forall>a \<in> set deps. rank a < rank b"
    unfolding init using assms by auto
  from toposort_loop_total[OF c r] obtain layers where
    "toposort_loop it (toposort_init up) = Inr layers" by blast
  with False show ?thesis by (simp add: toposort_assets_def toposort_def)
qed

subsection \<open>The topological order\<close>

text \<open>
  Claim C8, as stated, fails in its last part. The layers are sets and line 203 iterates
  over them as the host does: nothing sorts a layer by key. With an iteration order that
  is not the order of the key strings, \<open>b\<close> comes out before \<open>a\<close> although both are in the
  same layer and \<open>a\<close> is the smaller string.
\<close>

theorem layer_order_counterexample:
  "toposort rev [(''a'', []), (''b'', [])] = Inr [[''b'', ''a'']] \<and>
   toposort_assets rev [(''a'', []), (''b'', [])] = Inr [''b'', ''a''] \<and>
   (''a'' :: string) < ''b''"
  by code_simp

text \<open>
  Claim C8, amended. For every upstream map without a cycle (there is a numbering of the
  keys in which every parent is below its child), the orderer returns a flat sequence that
  holds exactly the monitored children, each once, and in which every monitored parent
  precedes its monitored child. This holds for every iteration order of the layer sets;
  the order inside a layer is that iteration order, the code does not sort a layer.
\<close>

theorem topological_order:
  assumes d: "distinct (map fst upstream)" and perm: "\<forall>xs. mset (it xs) = mset xs"
    and acyclic: "\<forall>(b, deps) \<in> set upstream. \<forall>a \<in> set deps. a \<noteq> b \<longrightarrow> (rank a :: nat) < rank b"
  shows "\<exists>order. toposort_assets it upstream = Inr order \<and>
           mset order = mset (map fst upstream) \<and>
           (\<forall>b deps a. (b, deps) \<in> set upstream \<and> a \<in> set deps \<and> a \<noteq> b \<and>
                a \<in> set (map fst upstream) \<longrightarrow>
              (\<exists>xs ys. order = xs @ b # ys \<and> a \<in> set xs))"
proof -
  from toposort_assets_total[OF acyclic] obtain order where
    ord: "toposort_assets it upstream = Inr order" by blast
  from toposort_assets_mset[OF perm d ord] toposort_assets_precedes[OF perm d ord] ord
  show ?thesis by blast
qed

theorem topological_order_witness:
  "distinct (map fst example_graph) \<and>
   (\<forall>xs. mset (rev xs) = mset xs) \<and>
   \<not> (\<exists>(b, deps) \<in> set example_graph. \<exists>a \<in> set deps. a \<noteq> b \<and> \<not> example_depth a < example_depth b) \<and>
   toposort_assets rev example_graph = Inr [''e'', ''d'', ''f''] \<and>
   mset [''e'', ''d'', ''f''] = mset (map fst example_graph) \<and>
   (\<exists>xs ys. [''e'', ''d'', ''f''] = xs @ ''f'' # ys \<and> ''d'' \<in> set xs)"
proof -
  have h1: "distinct (map fst example_graph)" by code_simp
  have h2: "\<forall>xs. mset (rev xs) = mset xs" by simp
  have h3: "\<forall>(b, deps) \<in> set example_graph. \<forall>a \<in> set deps. a \<noteq> b \<longrightarrow> example_depth a < example_depth b"
    by code_simp
  have h4: "toposort_assets rev example_graph = Inr [''e'', ''d'', ''f'']" by code_simp
  have e: "(''f'', [''d'', ''e'']) \<in> set example_graph" "''d'' \<in> set [''d'', ''e'']" "''d'' \<noteq> ''f''"
    "''d'' \<in> set (map fst example_graph)" by code_simp+
  from topological_order[OF h1 h2 h3] obtain order where
    o: "toposort_assets rev example_graph = Inr order" and
    m0: "mset order = mset (map fst example_graph)" and
    p0: "\<forall>b deps a. (b, deps) \<in> set example_graph \<and> a \<in> set deps \<and> a \<noteq> b \<and>
              a \<in> set (map fst example_graph) \<longrightarrow>
            (\<exists>xs ys. order = xs @ b # ys \<and> a \<in> set xs)"
    by blast
  from o h4 have oe: "order = [''e'', ''d'', ''f'']" by simp
  from p0 e have "\<exists>xs ys. order = xs @ ''f'' # ys \<and> ''d'' \<in> set xs"
    by blast
  with m0 have "mset [''e'', ''d'', ''f''] = mset (map fst example_graph)"
    "\<exists>xs ys. [''e'', ''d'', ''f''] = xs @ ''f'' # ys \<and> ''d'' \<in> set xs"
    unfolding oe by blast+
  moreover from h3 have "\<not> (\<exists>(b, deps) \<in> set example_graph. \<exists>a \<in> set deps.
      a \<noteq> b \<and> \<not> example_depth a < example_depth b)" by blast
  ultimately show ?thesis using h1 h2 h4 by blast
qed

subsection \<open>Decoding the cursor\<close>

text \<open>
  Claim C9, as stated, fails: line 195 calls \<^verbatim>\<open>json.loads\<close> outside any handler. On a
  cursor that is not JSON the tick raises the decoder's error, while on an absent cursor
  the same tick launches \<open>d\<close>, \<open>e\<close> and \<open>f\<close>.
\<close>

theorem corrupt_cursor_counterexample:
  "load_cursor host_texts context_corrupt = Inl JSONDecodeError \<and>
   sensor_tick host_texts all_mode log_abc example_graph context_corrupt = Inl JSONDecodeError \<and>
   sensor_tick host_texts all_mode log_abc example_graph fresh_context =
     Inr (example_context,
          Some \<lparr>run_key = the (cursor example_context), asset_selection = [''d'', ''e'', ''f'']\<rparr>)"
  by code_simp

text \<open>
  Claim C9, amended. An absent or empty cursor string is read as the empty map, and a
  non-empty string that the decoder accepts as the map it decodes to. On a non-empty
  string that the decoder rejects the tick fails with the decoder's error: it launches
  nothing and writes no cursor.
\<close>

theorem cursor_decoding:
  "(cursor ctx = None \<or> cursor ctx = Some [] \<longrightarrow> load_cursor h ctx = Inr []) \<and>
   (\<forall>s e. cursor ctx = Some s \<and> s \<noteq> [] \<and> json_loads h s = Inl e \<longrightarrow>
      sensor_tick h prm inst upstream ctx = Inl e) \<and>
   (\<forall>s dict. cursor ctx = Some s \<and> s \<noteq> [] \<and> json_loads h s = Inr dict \<longrightarrow>
      load_cursor h ctx = Inr dict)"
  by (auto simp: load_cursor_def sensor_tick_def sensor_decide_def)

theorem cursor_decoding_witness:
  "load_cursor host_texts fresh_context = Inr [] \<and>
   cursor context_corrupt = Some ''{'' \<and> json_loads host_texts ''{'' = Inl JSONDecodeError \<and>
   sensor_tick host_texts all_mode log_abc example_graph context_corrupt = Inl JSONDecodeError \<and>
   load_cursor host_texts example_context = Inr [(''d'', 2), (''e'', 3), (''f'', 0)]"
proof -
  have a: "cursor fresh_context = None" by code_simp
  have b: "cursor context_corrupt = Some ''{''" "''{'' \<noteq> ([] :: string)"
    "json_loads host_texts ''{'' = Inl JSONDecodeError" by code_simp+
  have c: "cursor example_context = Some (the (cursor example_context))" "the (cursor example_context) \<noteq> []"
    "json_loads host_texts (the (cursor example_context)) = Inr [(''d'', 2), (''e'', 3), (''f'', 0)]"
    by code_simp+
  from cursor_decoding[of fresh_context host_texts all_mode log_abc example_graph] a
  have 1: "load_cursor host_texts fresh_context = Inr []" by blast
  from cursor_decoding[of context_corrupt host_texts all_mode log_abc example_graph] b
  have 2: "sensor_tick host_texts all_mode log_abc example_graph context_corrupt = Inl JSONDecodeError"
    by blast
  from cursor_decoding[of example_context host_texts all_mode log_abc example_graph] c
  have 3: "load_cursor host_texts example_context = Inr [(''d'', 2), (''e'', 3), (''f'', 0)]"
    by blast
  from 1 2 3 b show ?thesis by blast
qed

lemma no_launch_fold:
  "\<forall>c \<in> set xs.
     \<not> (if and_condition prm
        then (\<forall>(p, u, ts) \<in> set (asset_parent_updates prm inst up cd [] c). u)
        else (\<exists>(p, u, ts) \<in> set (asset_parent_updates prm inst up cd [] c). u)) \<Longrightarrow>
   fst (fold (process_asset prm inst up cd) xs ([], cu)) = []"
proof (induction xs arbitrary: cu)
  case Nil
  show ?case by simp
next
  case (Cons x xs)
  from Cons.prems have "\<exists>cu'. process_asset prm inst up cd x ([], cu) = ([], cu')"
    by (simp add: process_asset_eq Let_def)
  then obtain cu' where "process_asset prm inst up cd x ([], cu) = ([], cu')" ..
  with Cons show ?case by simp
qed

lemma set_get_parent_updates:
  assumes "\<not> (\<exists>q\<in>set P. q \<notin> set L \<and> in_flight inst w q)"
  shows "set (get_parent_updates inst c P t L w) =
     (\<lambda>q. (q, if q \<in> set L then (True, 0) else completed_status inst c t q)) ` set P"
  by (simp only: get_parent_updates_no_abort[OF assms] set_fold_update)

lemma completed_status_flag:
  "fst (completed_status inst c t q) \<Longrightarrow>
   \<exists>e r. latest_completed inst q = Some (e, r) \<and> t < e \<and>
     c \<notin> set (planned_assets_in_run inst r) \<and> completed_status inst c t q = (True, e)"
  by (auto simp: completed_status_def split: option.splits if_splits)

lemma completed_status_mono:
  assumes "fst (completed_status inst c t' q)" "t \<le> t'"
  shows "\<exists>e. completed_status inst c t q = (True, e) \<and> t' < e"
  using assms by (auto simp: completed_status_def split: option.splits if_splits)


lemma ball_flags:
  "(\<forall>(p, u, ts) \<in> (\<lambda>q. (q, g q)) ` S. u) = (\<forall>q\<in>S. fst (g q))"
  by (auto simp: case_prod_beta)

lemma bex_flags:
  "(\<exists>(p, u, ts) \<in> (\<lambda>q. (q, g q)) ` S. u) = (\<exists>q\<in>S. fst (g q))"
  by (auto simp: case_prod_beta)

lemma image_ts:
  "(\<lambda>(p, u, ts). ts) ` (\<lambda>q. (q, g q)) ` S = (\<lambda>q. snd (g q)) ` S"
  by (auto simp: case_prod_beta image_image)

lemma second_tick_child:
  fixes t t' :: timestamp
  defines "launch ac recs \<equiv>
     (if ac then (\<forall>(p, u, ts) \<in> set recs. u) else (\<exists>(p, u, ts) \<in> set recs. u))"
  assumes l1: "c \<in> set L1 \<longleftrightarrow> launch ac (get_parent_updates inst c P t L w)"
    and n1: "t' = (if c \<in> set L1
                   then Max (insert t ((\<lambda>(p, u, ts). ts) ` set (get_parent_updates inst c P t L w)))
                   else t)"
    and sub: "set L \<subseteq> set L1"
    and H1: "ac \<longrightarrow> P \<noteq> []"
    and H2: "c \<in> set L1 \<longrightarrow>
               (\<forall>p \<in> set P. p \<in> set L1 \<longrightarrow> \<not> fst (completed_status inst c t' p))"
  shows "\<not> launch ac (get_parent_updates inst c P t' [] w)"
proof (cases "\<exists>q\<in>set P. in_flight inst w q")
  case True
  then have ab: "\<exists>q\<in>set P. q \<notin> set [] \<and> in_flight inst w q" by simp
  have recs2: "get_parent_updates inst c P t' [] w = map (\<lambda>pp. (pp, (False, 0))) P"
    by (rule get_parent_updates_abort[OF ab])
  from True obtain q where "q \<in> set P" by blast
  then show ?thesis
    unfolding launch_def recs2 by (auto simp: case_prod_beta)
next
  case False
  then have na2: "\<not> (\<exists>q\<in>set P. q \<notin> set [] \<and> in_flight inst w q)"
    and na1: "\<not> (\<exists>q\<in>set P. q \<notin> set L \<and> in_flight inst w q)" by auto
  let ?f1 = "\<lambda>q. if q \<in> set L then (True, 0) else completed_status inst c t q"
  have set2: "set (get_parent_updates inst c P t' [] w) =
      (\<lambda>q. (q, completed_status inst c t' q)) ` set P"
    using set_get_parent_updates[OF na2, of c t'] by simp
  have set1: "set (get_parent_updates inst c P t L w) = (\<lambda>q. (q, ?f1 q)) ` set P"
    by (rule set_get_parent_updates[OF na1])
  show ?thesis
  proof (cases "c \<in> set L1")
    case True
    with n1 have t': "t' = Max (insert t ((\<lambda>q. snd (?f1 q)) ` set P))"
      by (simp only: set1 image_ts if_True)
    have tt: "t \<le> t'" unfolding t' by (intro Max_ge) auto
    have key: "\<not> fst (completed_status inst c t' q)" if q: "q \<in> set P" for q
    proof (cases "q \<in> set L")
      case True
      with sub have "q \<in> set L1" by blast
      with H2 \<open>c \<in> set L1\<close> q show ?thesis by blast
    next
      case False
      show ?thesis
      proof
        assume "fst (completed_status inst c t' q)"
        from completed_status_mono[OF this tt] obtain e where
          e: "completed_status inst c t q = (True, e)" "t' < e" by blast
        from e(1) False q have "e \<in> (\<lambda>q. snd (?f1 q)) ` set P"
          by (auto intro!: image_eqI[of _ _ q])
        then have "e \<le> t'" unfolding t' by (intro Max_ge) auto
        with e(2) show False by simp
      qed
    qed
    show ?thesis
    proof (cases ac)
      case True
      with H1 obtain q where "q \<in> set P" by (cases P) auto
      with key True show ?thesis
        unfolding launch_def set2 ball_flags by auto
    next
      case False
      with key show ?thesis
        unfolding launch_def set2 bex_flags by auto
    qed
  next
    case False
    with n1 have t': "t' = t" by simp
    from False l1 have nl: "\<not> launch ac (get_parent_updates inst c P t L w)" by simp
    show ?thesis
    proof (cases ac)
      case True
      with nl obtain q where q: "q \<in> set P" "\<not> fst (?f1 q)"
        unfolding launch_def set1 ball_flags by auto
      then have "q \<notin> set L" "\<not> fst (completed_status inst c t q)"
        by (auto split: if_splits)
      with q(1) True show ?thesis
        unfolding t' launch_def set2[unfolded t'] ball_flags by auto
    next
      case False
      with nl have "\<forall>q\<in>set P. \<not> fst (?f1 q)"
        unfolding launch_def set1 bex_flags by auto
      then have "\<forall>q\<in>set P. \<not> fst (completed_status inst c t q)"
        by (auto split: if_splits)
      with False show ?thesis
        unfolding t' launch_def set2[unfolded t'] bex_flags by auto
    qed
  qed
qed


subsection \<open>Re-invoking the tick on the same event log\<close>

text \<open>
  Claim C5. A tick that launched a non-empty set, re-invoked at once on the same event log,
  should launch nothing. The code launches again in two situations.

  On the chain, \<open>p\<close> was materialized at time 3 and its parent \<open>a\<close> at time 5. The first tick
  launches \<open>p\<close> and \<open>c\<close>; since the parent of \<open>c\<close> is being launched, the cursor of \<open>c\<close> stays
  at 0. The second tick, on the same log, takes the materialization of \<open>p\<close> at time 3 as
  new for \<open>c\<close> and launches \<open>c\<close> again.

  An asset \<open>c\<close> without parents launches on every tick in all-mode, since \<^verbatim>\<open>all([])\<close> is
  true.
\<close>

theorem spurious_relaunch:
  "sensor_tick host_texts all_mode log_chain chain_graph fresh_context =
     Inr (context_chain,
          Some \<lparr>run_key = the (cursor context_chain), asset_selection = [''p'', ''c'']\<rparr>) \<and>
   sensor_tick host_texts all_mode log_chain chain_graph context_chain =
     Inr (context_chain_again,
          Some \<lparr>run_key = the (cursor context_chain_again), asset_selection = [''c'']\<rparr>) \<and>
   sensor_tick host_texts all_mode log_abc [(''c'', [])] fresh_context =
     Inr (context_childless,
          Some \<lparr>run_key = the (cursor context_childless), asset_selection = [''c'']\<rparr>) \<and>
   sensor_tick host_texts all_mode log_abc [(''c'', [])] context_childless =
     Inr (context_childless,
          Some \<lparr>run_key = the (cursor context_childless), asset_selection = [''c'']\<rparr>)"
  by code_simp

text \<open>
  These are the only two situations. Let a tick launch a non-empty set \<open>L1\<close> and write the
  cursor \<open>nc1\<close>, which the host's decoder reads back. Re-invoking the tick at once on the
  same event log launches nothing, leaves the context as it is and emits no run request,
  provided that in all-mode every monitored child has at least one parent, and that no
  launched child has a launched parent whose latest completed materialization is newer
  than the child's new cursor and comes from a run that did not plan the child.
\<close>

lemma relaunch_only_then:
  assumes d: "distinct (map fst upstream)" and perm: "\<forall>xs. mset (set_iter h xs) = mset xs"
    and dec1: "sensor_decide h prm inst upstream ctx = Inr (L1, nc1)"
    and tick1: "sensor_tick h prm inst upstream ctx = Inr (ctx1, Some rr)"
    and codec1: "json_dumps h nc1 \<noteq> []"
    and codec2: "json_loads h (json_dumps h nc1) = Inr nc1"
    and H1: "and_condition prm \<longrightarrow> (\<forall>c \<in> set (map fst upstream). parents_of upstream c \<noteq> [])"
    and H2: "\<forall>c \<in> set L1. \<forall>p \<in> set (parents_of upstream c). p \<in> set L1 \<longrightarrow>
               \<not> fst (completed_status inst c (cursor_get nc1 (str_of c)) p)"
  shows "(\<exists>nc2. sensor_decide h prm inst upstream ctx1 = Inr ([], nc2)) \<and>
         sensor_tick h prm inst upstream ctx1 = Inr (ctx1, None)"
proof -
  let ?F1 = "\<lambda>cd. process_asset prm inst upstream cd"
  from sensor_tick_Some[OF tick1] dec1
  have ctx1: "ctx1 = ctx\<lparr>cursor := Some (json_dumps h nc1), cursor_has_been_updated := True\<rparr>"
    by auto
  have lc: "load_cursor h ctx1 = Inr nc1"
    using codec1 codec2 by (simp add: load_cursor_def ctx1)
  from sensor_decide_Inr[OF dec1] obtain cd1 order where
    cur1: "load_cursor h ctx = Inr cd1" and
    ord: "toposort_assets (set_iter h) upstream = Inr order" and
    res: "(L1, nc1) = fold (?F1 cd1) order ([], [])" by blast
  have keys: "set order = set (map fst upstream)"
    using toposort_assets_mset[OF perm d ord] by (rule mset_eq_setD)
  have all: "\<forall>c \<in> set order.
     \<not> (if and_condition prm
        then (\<forall>(p, u, ts) \<in> set (asset_parent_updates prm inst upstream nc1 [] c). u)
        else (\<exists>(p, u, ts) \<in> set (asset_parent_updates prm inst upstream nc1 [] c). u))"
  proof
    fix c assume c: "c \<in> set order"
    then obtain before after where o: "order = before @ c # after"
      by (blast dest: split_list)
    obtain L cu where pre: "fold (?F1 cd1) before ([], []) = (L, cu)"
      by (cases "fold (?F1 cd1) before ([], [])")
    note tc = tick_child[OF d perm cur1 ord[unfolded o] pre dec1]
    have "L1 = fst (fold (?F1 cd1) (c # after) (L, cu))"
      using res[symmetric] by (simp add: o pre)
    then have sub: "set L \<subseteq> set L1"
      using fold_launch_lower[of "(L, cu)" prm inst upstream cd1 "c # after"] by simp
    from tc have n1: "cursor_get nc1 (str_of c) =
        (if c \<in> set L1
         then Max (insert (cursor_get cd1 (str_of c))
                ((\<lambda>(p, u, ts). ts) `
                   set (get_parent_updates inst c (parents_of upstream c)
                          (cursor_get cd1 (str_of c)) L (wait_for_in_progress_runs prm))))
         else cursor_get cd1 (str_of c))"
      by (simp add: cursor_get_def asset_parent_updates_def)
    from tc have l1: "c \<in> set L1 \<longleftrightarrow>
        (if and_condition prm
         then (\<forall>(p, u, ts) \<in> set (get_parent_updates inst c (parents_of upstream c)
                  (cursor_get cd1 (str_of c)) L (wait_for_in_progress_runs prm)). u)
         else (\<exists>(p, u, ts) \<in> set (get_parent_updates inst c (parents_of upstream c)
                  (cursor_get cd1 (str_of c)) L (wait_for_in_progress_runs prm)). u))"
      by (simp add: asset_parent_updates_def)
    have h1: "and_condition prm \<longrightarrow> parents_of upstream c \<noteq> []"
      using H1 c keys by blast
    have h2: "c \<in> set L1 \<longrightarrow> (\<forall>p \<in> set (parents_of upstream c). p \<in> set L1 \<longrightarrow>
        \<not> fst (completed_status inst c (cursor_get nc1 (str_of c)) p))"
      using H2 by blast
    from second_tick_child[OF l1 n1 sub h1 h2]
    show "\<not> (if and_condition prm
        then (\<forall>(p, u, ts) \<in> set (asset_parent_updates prm inst upstream nc1 [] c). u)
        else (\<exists>(p, u, ts) \<in> set (asset_parent_updates prm inst upstream nc1 [] c). u))"
      unfolding asset_parent_updates_def .
  qed
  have e: "fst (fold (?F1 nc1) order ([], [])) = []"
    by (rule no_launch_fold[OF all])
  have dec2: "sensor_decide h prm inst upstream ctx1 = Inr (fold (?F1 nc1) order ([], []))"
    by (simp add: sensor_decide_def lc ord)
  obtain nc2 where "fold (?F1 nc1) order ([], []) = ([], nc2)"
    using e by (cases "fold (?F1 nc1) order ([], [])") simp
  with dec2 have dec2': "sensor_decide h prm inst upstream ctx1 = Inr ([], nc2)" by simp
  then have "sensor_tick h prm inst upstream ctx1 = Inr (ctx1, None)"
    by (simp add: sensor_tick_def)
  with dec2' show ?thesis by blast
qed

lemma relaunch_only_then_example:
  "distinct (map fst example_graph) \<and>
   (\<forall>xs. mset (set_iter host_texts xs) = mset xs) \<and>
   sensor_decide host_texts all_mode log_abc example_graph fresh_context =
     Inr ([''d'', ''e'', ''f''], [(''d'', 2), (''e'', 3), (''f'', 0)]) \<and>
   sensor_tick host_texts all_mode log_abc example_graph fresh_context =
     Inr (example_context,
          Some \<lparr>run_key = the (cursor example_context), asset_selection = [''d'', ''e'', ''f'']\<rparr>) \<and>
   json_dumps host_texts [(''d'', 2), (''e'', 3), (''f'', 0)] \<noteq> [] \<and>
   json_loads host_texts (json_dumps host_texts [(''d'', 2), (''e'', 3), (''f'', 0)]) =
     Inr [(''d'', 2), (''e'', 3), (''f'', 0)] \<and>
   (\<exists>nc2. sensor_decide host_texts all_mode log_abc example_graph example_context = Inr ([], nc2)) \<and>
   sensor_tick host_texts all_mode log_abc example_graph example_context = Inr (example_context, None)"
proof -
  let ?nc = "[(''d'', 2), (''e'', 3), (''f'', 0)] :: cursor_map"
  have h1: "distinct (map fst example_graph)" by code_simp
  have h3: "sensor_decide host_texts all_mode log_abc example_graph fresh_context =
     Inr ([''d'', ''e'', ''f''], ?nc)" by code_simp
  have h4: "sensor_tick host_texts all_mode log_abc example_graph fresh_context =
     Inr (example_context,
          Some \<lparr>run_key = the (cursor example_context), asset_selection = [''d'', ''e'', ''f'']\<rparr>)"
    by code_simp
  have h5: "json_dumps host_texts ?nc \<noteq> []" by code_simp
  have h6: "json_loads host_texts (json_dumps host_texts ?nc) = Inr ?nc" by code_simp
  have h7: "and_condition all_mode \<longrightarrow>
      (\<forall>c \<in> set (map fst example_graph). parents_of example_graph c \<noteq> [])" by code_simp
  have h8: "\<forall>c \<in> set [''d'', ''e'', ''f'']. \<forall>p \<in> set (parents_of example_graph c).
      p \<in> set [''d'', ''e'', ''f''] \<longrightarrow>
      \<not> fst (completed_status log_abc c (cursor_get ?nc (str_of c)) p)" by code_simp
  from relaunch_only_then[OF h1 host_texts_perm h3 h4 h5 h6 h7 h8]
    h1 host_texts_perm h3 h4 h5 h6
  show ?thesis by blast
qed

end
